theory Spec2Isabelle
  imports Main "HOL-Library.Char_ord" "HOL-Library.List_Lexorder" "HOL-Library.AList"
    "HOL-Library.Multiset"
begin

section \<open>makenoto.py: mapping Unicode script identifiers to Noto font resources\<close>

text \<open>
  The script \<^verbatim>\<open>mupdf/scripts/makenoto.py\<close> reads the \<^verbatim>\<open>#define\<close> lines of
  \<^verbatim>\<open>include/mupdf/ucdn.h\<close>, removes a fixed blacklist from the script identifiers found
  there, enumerates \<^verbatim>\<open>resources/fonts/noto/*.?tf\<close>, and prints one \<^verbatim>\<open>case\<close> line per
  identifier followed by two blocks of diagnostic comments.

  Model: a Python \<^verbatim>\<open>str\<close> is a \<^typ>\<open>string\<close> whose characters are ASCII (the header
  identifiers and the Noto file names are), a Python \<^verbatim>\<open>list\<close> is a list, the
  \<^verbatim>\<open>dict\<close> \<^verbatim>\<open>lower\<close> is an association list in insertion order with distinct keys,
  standard output is the list of the lines printed so far, and an uncaught exception is
  a value of type \<open>error\<close>. The header is given as its list of lines, the font
  directory as the list of its entry names in the order the operating system returns
  them. The library functions follow their POSIX behaviour: \<^verbatim>\<open>glob\<close> matches names
  case-sensitively and skips hidden entries, \<^verbatim>\<open>os.path.basename\<close> splits at the
  last slash. Reading the files themselves is outside the model.
\<close>

subsection \<open>Python strings\<close>

datatype error = IndexError | ValueError | KeyError

definition lower_chr :: "char \<Rightarrow> char" where
  "lower_chr c =
     (let n = (of_char c :: nat) in if 65 \<le> n \<and> n \<le> 90 then char_of (n + 32) else c)"

definition upper_chr :: "char \<Rightarrow> char" where
  "upper_chr c =
     (let n = (of_char c :: nat) in if 97 \<le> n \<and> n \<le> 122 then char_of (n - 32) else c)"

definition lower_str :: "string \<Rightarrow> string" where
  \<comment> \<open>\<^verbatim>\<open>s.lower()\<close>\<close>
  "lower_str s = map lower_chr s"

definition capitalize :: "string \<Rightarrow> string" where
  \<comment> \<open>\<^verbatim>\<open>s.capitalize()\<close>: first character upper case, the rest lower case\<close>
  "capitalize s = (case s of [] \<Rightarrow> [] | c # cs \<Rightarrow> upper_chr c # map lower_chr cs)"

definition replace_chr :: "char \<Rightarrow> char \<Rightarrow> string \<Rightarrow> string" where
  \<comment> \<open>\<^verbatim>\<open>s.replace(a, b)\<close> for one-character \<^verbatim>\<open>a\<close> and \<^verbatim>\<open>b\<close>\<close>
  "replace_chr a b s = map (\<lambda>c. if c = a then b else c) s"

fun startswith :: "string \<Rightarrow> string \<Rightarrow> bool" where
  \<comment> \<open>\<^verbatim>\<open>s.startswith(p)\<close>\<close>
  "startswith s [] = True"
| "startswith [] (p # ps) = False"
| "startswith (c # cs) (p # ps) = (c = p \<and> startswith cs ps)"

definition is_space :: "char \<Rightarrow> bool" where
  \<comment> \<open>the ASCII characters for which \<^verbatim>\<open>str.isspace\<close> holds\<close>
  "is_space c = (let n = (of_char c :: nat) in (9 \<le> n \<and> n \<le> 13) \<or> (28 \<le> n \<and> n \<le> 32))"

fun split_ws_from :: "string \<Rightarrow> string \<Rightarrow> string list" where
  \<comment> \<open>\<^verbatim>\<open>s.split()\<close>; the first argument is the word being read\<close>
  "split_ws_from cur [] = (if cur = [] then [] else [cur])"
| "split_ws_from cur (c # cs) =
     (if is_space c then (if cur = [] then split_ws_from [] cs else cur # split_ws_from [] cs)
      else split_ws_from (cur @ [c]) cs)"

definition split_ws :: "string \<Rightarrow> string list" where
  "split_ws s = split_ws_from [] s"

fun split_on :: "char \<Rightarrow> string \<Rightarrow> string list" where
  \<comment> \<open>\<^verbatim>\<open>s.split(d)\<close> for a one-character separator: empty fields are kept\<close>
  "split_on d [] = [[]]"
| "split_on d (c # cs) =
     (if c = d then [] # split_on d cs
      else (case split_on d cs of [] \<Rightarrow> [[c]] | w # ws \<Rightarrow> (c # w) # ws))"

definition basename :: "string \<Rightarrow> string" where
  \<comment> \<open>\<^verbatim>\<open>os.path.basename\<close> (POSIX): what follows the last slash\<close>
  "basename p = rev (takeWhile (\<lambda>c. c \<noteq> CHR ''/'') (rev p))"

fun list_item :: "'a list \<Rightarrow> nat \<Rightarrow> error + 'a" where
  \<comment> \<open>\<^verbatim>\<open>xs[i]\<close> for \<^verbatim>\<open>i >= 0\<close>\<close>
  "list_item [] i = Inl IndexError"
| "list_item (x # xs) 0 = Inr x"
| "list_item (x # xs) (Suc i) = list_item xs i"

fun list_remove :: "'a list \<Rightarrow> 'a \<Rightarrow> error + 'a list" where
  \<comment> \<open>\<^verbatim>\<open>xs.remove(x)\<close>: drops the first occurrence, raises \<^verbatim>\<open>ValueError\<close> when there is none\<close>
  "list_remove [] x = Inl ValueError"
| "list_remove (y # ys) x =
     (if y = x then Inr ys
      else (case list_remove ys x of Inl e \<Rightarrow> Inl e | Inr zs \<Rightarrow> Inr (y # zs)))"

subsection \<open>Reading the header and removing the blacklist\<close>

fun scan_header :: "string list \<Rightarrow> string list \<Rightarrow> error + string list" where
  "scan_header scripts [] = Inr scripts"
| "scan_header scripts (line # rest) =
     (if startswith line ''#define'' then
        (case list_item (split_ws line) 1 of
           Inl e \<Rightarrow> Inl e
         | Inr name \<Rightarrow>
             if startswith name ''UCDN_SCRIPT_'' then scan_header (scripts @ [name]) rest
             else scan_header scripts rest)
      else scan_header scripts rest)"

definition blacklist :: "string list" where
  "blacklist =
    [''UCDN_SCRIPT_UNKNOWN'',
     ''UCDN_SCRIPT_INHERITED'',
     ''UCDN_SCRIPT_COMMON'',
     ''UCDN_SCRIPT_LATIN'',
     ''UCDN_SCRIPT_GREEK'',
     ''UCDN_SCRIPT_CYRILLIC'',
     ''UCDN_SCRIPT_HIRAGANA'',
     ''UCDN_SCRIPT_KATAKANA'',
     ''UCDN_SCRIPT_BOPOMOFO'',
     ''UCDN_SCRIPT_HAN'',
     ''UCDN_SCRIPT_HANGUL'',
     ''UCDN_SCRIPT_BRAILLE'',
     ''UCDN_SCRIPT_MEROITIC_CURSIVE'',
     ''UCDN_SCRIPT_MEROITIC_HIEROGLYPHS'',
     ''UCDN_SCRIPT_SYRIAC'']"

fun remove_each :: "string list \<Rightarrow> string list \<Rightarrow> error + string list" where
  \<comment> \<open>\<^verbatim>\<open>for s in bl: scripts.remove(s)\<close>\<close>
  "remove_each scripts [] = Inr scripts"
| "remove_each scripts (s # bl) =
     (case list_remove scripts s of
        Inl e \<Rightarrow> Inl e
      | Inr scripts' \<Rightarrow> remove_each scripts' bl)"

subsection \<open>Enumerating the fonts\<close>

fun fnmatch :: "string \<Rightarrow> string \<Rightarrow> bool" where
  \<comment> \<open>\<^verbatim>\<open>fnmatch.fnmatchcase(name, pat)\<close> for patterns made of \<^verbatim>\<open>*\<close>, \<^verbatim>\<open>?\<close> and
      literal characters\<close>
  "fnmatch [] [] = True"
| "fnmatch (c # cs) [] = False"
| "fnmatch [] (p # ps) = (p = CHR ''*'' \<and> fnmatch [] ps)"
| "fnmatch (c # cs) (p # ps) =
     (if p = CHR ''*'' then fnmatch (c # cs) ps \<or> fnmatch cs (p # ps)
      else (p = CHR ''?'' \<or> p = c) \<and> fnmatch cs ps)"

definition ishidden :: "string \<Rightarrow> bool" where
  "ishidden name = (case name of [] \<Rightarrow> False | c # _ \<Rightarrow> c = CHR ''.'')"

definition noto_dir :: string where
  "noto_dir = ''resources/fonts/noto/''"

definition glob_noto :: "string list \<Rightarrow> string list" where
  \<comment> \<open>\<^verbatim>\<open>glob.glob("resources/fonts/noto/*.?tf")\<close> on a directory with the entries
      \<open>names\<close>: the pattern does not start with a dot, so hidden entries are skipped\<close>
  "glob_noto names =
     map (\<lambda>n. noto_dir @ n) (filter (\<lambda>n. \<not> ishidden n \<and> fnmatch n ''*.?tf'') names)"

subsection \<open>The font index, the unused pool and the output\<close>

type_synonym index = "(string \<times> string) list"

record state =
  lower :: index
  unused :: "string list"
  stdout :: "string list"

definition build_lower :: "string list \<Rightarrow> index" where
  \<comment> \<open>\<^verbatim>\<open>{f.lower(): os.path.basename(f) for f in fonts}\<close>\<close>
  "build_lower fonts = foldl (\<lambda>d f. AList.update (lower_str f) (basename f) d) [] fonts"

definition init_state :: "string list \<Rightarrow> state" where
  "init_state fonts =
     (let d = build_lower fonts in \<lparr>lower = d, unused = sort (map fst d), stdout = []\<rparr>)"

definition symbol_of :: "string \<Rightarrow> string" where
  \<comment> \<open>\<^verbatim>\<open>nn = lower[n].replace('.','_').replace('-','_')\<close>\<close>
  "symbol_of b = replace_chr CHR ''-'' CHR ''_'' (replace_chr CHR ''.'' CHR ''_'' b)"

definition casefont :: "state \<Rightarrow> string \<Rightarrow> string \<Rightarrow> string \<Rightarrow> bool \<times> state" where
  "casefont st us ss n =
     (case map_of (lower st) n of
        Some b \<Rightarrow>
          (True, st\<lparr>stdout := stdout st @ [''case '' @ us @ '': RETURN(noto_'' @ symbol_of b @ '');''],
                    lower := AList.delete n (lower st)\<rparr>)
      | None \<Rightarrow> (False, st))"

fun any_casefont :: "state \<Rightarrow> string \<Rightarrow> string \<Rightarrow> string list \<Rightarrow> bool \<times> state" where
  \<comment> \<open>\<^verbatim>\<open>any(casefont(us, ss, font.lower()) for font in list)\<close>: stops at the first hit\<close>
  "any_casefont st us ss [] = (False, st)"
| "any_casefont st us ss (font # rest) =
     (case casefont st us ss (lower_str font) of
        (True, st') \<Rightarrow> (True, st')
      | (False, st') \<Rightarrow> any_casefont st' us ss rest)"

fun strip_unused :: "string list \<Rightarrow> string list \<Rightarrow> string list" where
  \<comment> \<open>\<^verbatim>\<open>for font in list: if font.lower() in unused: unused.remove(font.lower())\<close>\<close>
  "strip_unused pool [] = pool"
| "strip_unused pool (font # rest) =
     strip_unused (if lower_str font \<in> set pool then remove1 (lower_str font) pool else pool) rest"

definition script_fragment :: "string \<Rightarrow> string" where
  \<comment> \<open>\<^verbatim>\<open>"".join([s.capitalize() for s in us.split("_")[2:]])\<close>\<close>
  "script_fragment us = concat (map capitalize (drop 2 (split_on CHR ''_'' us)))"

definition font_list :: "string \<Rightarrow> string list" where
  "font_list ss =
    [''resources/fonts/noto/NotoSerif'' @ ss @ ''-Regular.otf'',
     ''resources/fonts/noto/NotoSans'' @ ss @ ''-Regular.otf'',
     ''resources/fonts/noto/NotoSerif'' @ ss @ ''-Regular.ttf'',
     ''resources/fonts/noto/NotoSans'' @ ss @ ''-Regular.ttf'']"

definition process_script :: "state \<Rightarrow> string \<Rightarrow> state" where
  \<comment> \<open>one iteration of \<^verbatim>\<open>for us in scripts\<close>\<close>
  "process_script st us =
     (let ss = script_fragment us;
          list = font_list ss;
          (found, st1) = any_casefont st us ss list;
          st2 = (if \<not> found then st1\<lparr>stdout := stdout st1 @ [''case '' @ us @ '': break;'']\<rparr>
                 else st1)
      in st2\<lparr>unused := strip_unused (unused st2) list\<rparr>)"

definition process_scripts :: "state \<Rightarrow> string list \<Rightarrow> state" where
  "process_scripts st scripts = foldl process_script st scripts"

fun report_unmapped :: "index \<Rightarrow> string list \<Rightarrow> string list \<Rightarrow> string list \<times> error option" where
  \<comment> \<open>\<^verbatim>\<open>for f in unused: print("// unmapped font:", lower[f])\<close>; the lines printed
      before a \<^verbatim>\<open>KeyError\<close> stay printed\<close>
  "report_unmapped d out [] = (out, None)"
| "report_unmapped d out (f # fs) =
     (case map_of d f of
        None \<Rightarrow> (out, Some KeyError)
      | Some b \<Rightarrow> report_unmapped d (out @ [''// unmapped font: '' @ b]) fs)"

fun report_unused :: "index \<Rightarrow> string list \<Rightarrow> string list \<Rightarrow> string list \<Rightarrow> string list \<times> error option" where
  \<comment> \<open>\<^verbatim>\<open>for f in lower: if f not in unused: print("// unused font file:", lower[f])\<close>\<close>
  "report_unused d pool out [] = (out, None)"
| "report_unused d pool out (f # fs) =
     (if f \<notin> set pool then
        (case map_of d f of
           None \<Rightarrow> (out, Some KeyError)
         | Some b \<Rightarrow> report_unused d pool (out @ [''// unused font file: '' @ b]) fs)
      else report_unused d pool out fs)"

definition report :: "state \<Rightarrow> string list \<times> error option" where
  "report st =
     (case report_unmapped (lower st) (stdout st) (unused st) of
        (out, Some e) \<Rightarrow> (out, Some e)
      | (out, None) \<Rightarrow> report_unused (lower st) (unused st) out (map fst (lower st)))"

definition run_scripts :: "string list \<Rightarrow> string list \<Rightarrow> string list \<times> error option" where
  \<comment> \<open>the program from the blacklist loop on: \<open>scripts\<close> are the extracted identifiers,
      \<open>names\<close> the entries of the font directory\<close>
  "run_scripts scripts names =
     (case remove_each scripts blacklist of
        Inl e \<Rightarrow> ([], Some e)
      | Inr scripts' \<Rightarrow> report (process_scripts (init_state (glob_noto names)) scripts'))"

definition main :: "string list \<Rightarrow> string list \<Rightarrow> string list \<times> error option" where
  \<comment> \<open>the whole program: the lines printed, and the exception that ended the run if any\<close>
  "main header names =
     (case scan_header [] header of
        Inl e \<Rightarrow> ([], Some e)
      | Inr scripts \<Rightarrow> run_scripts scripts names)"

definition blacklist_header :: "string list" where
  \<comment> \<open>a header fragment that defines every blacklisted identifier once, for the examples\<close>
  "blacklist_header = map (\<lambda>name. ''#define '' @ name @ '' 0'') blacklist"

subsection \<open>What one run decides\<close>

text \<open>
  The following functions are not part of the script: they name what the theorems speak
  about. \<open>candidates us\<close> are the four keys probed for the identifier \<open>us\<close>, in the
  order of the probes; \<open>winner d us\<close> is the first of them that the index \<open>d\<close> holds;
  \<open>name_of d n\<close> is \<^verbatim>\<open>lower[n]\<close>; \<open>resolutions d scripts\<close> pairs every identifier of
  the loop with its winner, the index losing each winner as the loop goes.
\<close>

definition candidates :: "string \<Rightarrow> string list" where
  "candidates us = map lower_str (font_list (script_fragment us))"

definition winner :: "index \<Rightarrow> string \<Rightarrow> string option" where
  "winner d us = find (\<lambda>n. n \<in> fst ` set d) (candidates us)"

definition name_of :: "index \<Rightarrow> string \<Rightarrow> string" where
  "name_of d n = (case map_of d n of Some b \<Rightarrow> b | None \<Rightarrow> [])"

definition return_line :: "string \<Rightarrow> string \<Rightarrow> string" where
  "return_line us b = ''case '' @ us @ '': RETURN(noto_'' @ symbol_of b @ '');''"

definition break_line :: "string \<Rightarrow> string" where
  "break_line us = ''case '' @ us @ '': break;''"

fun resolutions :: "index \<Rightarrow> string list \<Rightarrow> (string \<times> string option) list" where
  "resolutions d [] = []"
| "resolutions d (us # rest) =
     (case winner d us of
        None \<Rightarrow> (us, None) # resolutions d rest
      | Some n \<Rightarrow> (us, Some n) # resolutions (AList.delete n d) rest)"

definition emitted_line :: "index \<Rightarrow> string \<times> string option \<Rightarrow> string" where
  "emitted_line d r =
     (case snd r of None \<Rightarrow> break_line (fst r) | Some n \<Rightarrow> return_line (fst r) (name_of d n))"

definition selected :: "index \<Rightarrow> string list \<Rightarrow> string list" where
  \<comment> \<open>the keys claimed during the loop, in the order of the claims\<close>
  "selected d scripts = List.map_filter snd (resolutions d scripts)"

definition after_loop :: "string list \<Rightarrow> string list \<Rightarrow> state" where
  \<comment> \<open>the state reached from the enumerated \<open>fonts\<close> once the loop has processed \<open>scripts\<close>\<close>
  "after_loop fonts scripts = process_scripts (init_state fonts) scripts"

definition example_fonts :: "string list" where
  \<comment> \<open>two enumerated fonts, for the examples\<close>
  "example_fonts =
     [''resources/fonts/noto/NotoSansArabic-Regular.ttf'',
      ''resources/fonts/noto/NotoSansXyzzy-Regular.otf'']"

section \<open>Removing the blacklist\<close>

lemma list_remove_eq:
  "list_remove xs x = (if x \<in> set xs then Inr (remove1 x xs) else Inl ValueError)"
  by (induction xs) auto

lemma remove_each_eq:
  "remove_each scripts bl =
     (if mset bl \<subseteq># mset scripts then Inr (foldl (\<lambda>xs x. remove1 x xs) scripts bl)
      else Inl ValueError)"
proof (induction bl arbitrary: scripts)
  case Nil
  show ?case by simp
next
  case (Cons s bl)
  show ?case
  proof (cases "s \<in> set scripts")
    case True
    then have "mset (s # bl) \<subseteq># mset scripts \<longleftrightarrow> mset bl \<subseteq># mset (remove1 s scripts)"
      by (simp add: insert_subset_eq_iff)
    with True Cons show ?thesis by (simp add: list_remove_eq)
  next
    case False
    then have "\<not> mset (s # bl) \<subseteq># mset scripts"
      by (auto dest: mset_subset_eqD)
    with False show ?thesis by (simp add: list_remove_eq)
  qed
qed

lemma remove_each_mset:
  "remove_each scripts bl = Inr s' \<Longrightarrow> mset s' = mset scripts - mset bl"
proof (induction bl arbitrary: scripts)
  case Nil
  then show ?case by simp
next
  case (Cons s bl)
  then show ?case
    by (auto simp: list_remove_eq split: if_splits)
qed

lemma filter_neq_absent: "s \<notin> set xs \<Longrightarrow> filter (\<lambda>x. x \<noteq> s) xs = xs"
  by (induction xs) auto

lemma remove1_filter_once:
  "count_list xs s \<le> 1 \<Longrightarrow> remove1 s xs = filter (\<lambda>x. x \<noteq> s) xs"
proof (induction xs)
  case Nil
  show ?case by simp
next
  case (Cons x xs)
  show ?case
  proof (cases "x = s")
    case True
    with Cons.prems have "s \<notin> set xs" by (simp add: count_list_0_iff)
    with True show ?thesis by (simp add: filter_neq_absent)
  next
    case False
    with Cons show ?thesis by simp
  qed
qed

lemma distinct_mset_subseteq_iff:
  "distinct bl \<Longrightarrow> mset bl \<subseteq># mset xs \<longleftrightarrow> set bl \<subseteq> set xs"
proof (induction bl arbitrary: xs)
  case Nil
  show ?case by simp
next
  case (Cons b bl)
  from Cons.prems have d: "distinct bl" and nb: "b \<notin> set bl" by simp_all
  have "mset (b # bl) \<subseteq># mset xs \<longleftrightarrow> b \<in> set xs \<and> mset bl \<subseteq># mset (remove1 b xs)"
    by (auto simp: insert_subset_eq_iff)
  also have "\<dots> \<longleftrightarrow> b \<in> set xs \<and> set bl \<subseteq> set (remove1 b xs)"
    using Cons.IH[OF d, of "remove1 b xs"] by blast
  also have "\<dots> \<longleftrightarrow> set (b # bl) \<subseteq> set xs"
  proof -
    have "\<And>x. x \<in> set bl \<Longrightarrow> (x \<in> set (remove1 b xs) \<longleftrightarrow> x \<in> set xs)"
      using nb by (metis in_set_remove1)
    then show ?thesis by auto
  qed
  finally show ?case .
qed

lemma distinct_blacklist: "distinct blacklist"
  by (simp add: blacklist_def)

lemma remove_each_filter:
  "\<forall>b\<in>set bl. count_list scripts b \<le> 1 \<Longrightarrow> remove_each scripts bl = Inr s' \<Longrightarrow>
   s' = filter (\<lambda>x. x \<notin> set bl) scripts"
proof (induction bl arbitrary: scripts)
  case Nil
  then show ?case by simp
next
  case (Cons s bl)
  from Cons.prems(2) have mem: "s \<in> set scripts"
    and rest: "remove_each (remove1 s scripts) bl = Inr s'"
    by (auto simp: list_remove_eq split: if_splits)
  from Cons.prems(1) have once: "count_list scripts s \<le> 1" by simp
  then have r: "remove1 s scripts = filter (\<lambda>x. x \<noteq> s) scripts"
    by (rule remove1_filter_once)
  have "\<forall>b\<in>set bl. count_list (filter (\<lambda>x. x \<noteq> s) scripts) b \<le> 1"
  proof
    fix b assume "b \<in> set bl"
    with Cons.prems(1) have "count_list scripts b \<le> 1" by simp
    moreover have "count_list (filter (\<lambda>x. x \<noteq> s) scripts) b \<le> count_list scripts b"
      by (induction scripts) auto
    ultimately show "count_list (filter (\<lambda>x. x \<noteq> s) scripts) b \<le> 1" by simp
  qed
  from Cons.IH[OF this] rest r
  have "s' = filter (\<lambda>x. x \<notin> set bl) (filter (\<lambda>x. x \<noteq> s) scripts)" by simp
  also have "\<dots> = filter (\<lambda>x. x \<notin> set (s # bl)) scripts"
    by (induction scripts) auto
  finally show ?case .
qed

lemma count_list_blacklist:
  "count_list blacklist s = (if s \<in> set blacklist then 1 else 0)"
  using distinct_blacklist by (metis count_mset distinct_count_atmost_1)

text \<open>
  Claim C5, as amended. The blacklist loop removes exactly one occurrence of each
  blacklisted name, the first one: what remains is the extracted sequence after
  \<open>remove1\<close> has been applied for each blacklisted name in turn, where one removal takes
  away the occurrence that has no other before it and keeps the order of the rest. Every
  blacklisted name was among the extracted ones, and every name keeps its number of
  occurrences, less one if it is blacklisted. So when no blacklisted name occurs more
  than once among the extracted identifiers, the sequence that remains is the extracted
  one without the blacklisted names, in the same order, and no blacklisted name remains.
\<close>

theorem remove_each_blacklist_once:
  assumes "remove_each scripts blacklist = Inr scripts'"
  shows "scripts' = foldl (\<lambda>xs x. remove1 x xs) scripts blacklist \<and>
         (\<forall>pre x post. x \<notin> set pre \<longrightarrow>
            list_remove (pre @ x # post) x = Inr (pre @ post)) \<and>
         set blacklist \<subseteq> set scripts \<and>
         (\<forall>s. count_list scripts' s
            = count_list scripts s - (if s \<in> set blacklist then 1 else 0)) \<and>
         ((\<forall>b\<in>set blacklist. count_list scripts b \<le> 1) \<longrightarrow>
            scripts' = filter (\<lambda>s. s \<notin> set blacklist) scripts \<and>
            set scripts' \<inter> set blacklist = {})"
proof (intro conjI allI impI)
  from assms have sub: "mset blacklist \<subseteq># mset scripts"
    and eq: "scripts' = foldl (\<lambda>xs x. remove1 x xs) scripts blacklist"
    by (auto simp: remove_each_eq split: if_splits)
  from eq show "scripts' = foldl (\<lambda>xs x. remove1 x xs) scripts blacklist" .
  from sub show "set blacklist \<subseteq> set scripts"
    by (simp only: distinct_mset_subseteq_iff[OF distinct_blacklist])
next
  fix pre :: "'a list" and x post
  assume "x \<notin> set pre"
  then show "list_remove (pre @ x # post) x = Inr (pre @ post)"
    by (simp add: list_remove_eq remove1_append)
next
  fix s
  from assms have "mset scripts' = mset scripts - mset blacklist"
    by (rule remove_each_mset)
  then have "count (mset scripts') s = count (mset scripts) s - count (mset blacklist) s"
    by simp
  then show "count_list scripts' s
      = count_list scripts s - (if s \<in> set blacklist then 1 else 0)"
    by (simp only: count_mset count_list_blacklist)
next
  assume once: "\<forall>b\<in>set blacklist. count_list scripts b \<le> 1"
  from remove_each_filter[OF once assms]
  show eq: "scripts' = filter (\<lambda>s. s \<notin> set blacklist) scripts" .
  then show "set scripts' \<inter> set blacklist = {}" by auto
qed

theorem remove_each_blacklist_once_witness:
  "remove_each (blacklist @ [''UCDN_SCRIPT_ARABIC'']) blacklist = Inr [''UCDN_SCRIPT_ARABIC''] \<and>
   list_all (\<lambda>b. count_list (blacklist @ [''UCDN_SCRIPT_ARABIC'']) b \<le> 1) blacklist \<and>
   [''UCDN_SCRIPT_ARABIC''] = filter (\<lambda>s. s \<notin> set blacklist) (blacklist @ [''UCDN_SCRIPT_ARABIC'']) \<and>
   set [''UCDN_SCRIPT_ARABIC''] \<inter> set blacklist = {} \<and>
   ''UCDN_SCRIPT_LATIN'' \<notin> set [''UCDN_SCRIPT_ARABIC''] \<and>
   list_remove ([''UCDN_SCRIPT_ARABIC''] @ ''UCDN_SCRIPT_LATIN'' # [''UCDN_SCRIPT_LATIN''])
       ''UCDN_SCRIPT_LATIN''
     = Inr ([''UCDN_SCRIPT_ARABIC''] @ [''UCDN_SCRIPT_LATIN''])"
proof -
  have h: "remove_each (blacklist @ [''UCDN_SCRIPT_ARABIC'']) blacklist = Inr [''UCDN_SCRIPT_ARABIC'']"
    by code_simp
  have c: "list_all (\<lambda>b. count_list (blacklist @ [''UCDN_SCRIPT_ARABIC'']) b \<le> 1) blacklist"
    by code_simp
  then have c': "\<forall>b\<in>set blacklist. count_list (blacklist @ [''UCDN_SCRIPT_ARABIC'']) b \<le> 1"
    by (simp only: list_all_iff)
  have p: "''UCDN_SCRIPT_LATIN'' \<notin> set [''UCDN_SCRIPT_ARABIC'']" by simp
  note t = remove_each_blacklist_once[OF h]
  note r = t[THEN conjunct2, THEN conjunct1, rule_format, OF p, of "[''UCDN_SCRIPT_LATIN'']"]
  note t5 = t[THEN conjunct2, THEN conjunct2, THEN conjunct2, THEN conjunct2, THEN mp, OF c']
  from t5 have "[''UCDN_SCRIPT_ARABIC''] = filter (\<lambda>s. s \<notin> set blacklist) (blacklist @ [''UCDN_SCRIPT_ARABIC''])"
    and "set [''UCDN_SCRIPT_ARABIC''] \<inter> set blacklist = {}"
    by blast+
  with h c p r show ?thesis by (intro conjI)
qed

text \<open>
  Claim C5 as stated fails when a blacklisted name is defined twice in the header: the
  scan extracts it twice, the loop removes one occurrence and the other stays.
\<close>

theorem remove_each_duplicate_counterexample:
  "scan_header [] (blacklist_header @ [''#define UCDN_SCRIPT_LATIN 25''])
     = Inr (blacklist @ [''UCDN_SCRIPT_LATIN'']) \<and>
   remove_each (blacklist @ [''UCDN_SCRIPT_LATIN'']) blacklist = Inr [''UCDN_SCRIPT_LATIN'']"
  by code_simp

section \<open>The glob pattern\<close>

lemma fnmatch_star:
  "fnmatch n (CHR ''*'' # ps) \<longleftrightarrow> (\<exists>k\<le>length n. fnmatch (drop k n) ps)"
proof (induction n)
  case Nil
  show ?case by simp
next
  case (Cons c cs)
  have "(\<exists>k\<le>length (c # cs). fnmatch (drop k (c # cs)) ps) \<longleftrightarrow>
        fnmatch (c # cs) ps \<or> (\<exists>k\<le>length cs. fnmatch (drop k cs) ps)"
  proof
    assume "\<exists>k\<le>length (c # cs). fnmatch (drop k (c # cs)) ps"
    then obtain k where k: "k \<le> length (c # cs)" "fnmatch (drop k (c # cs)) ps" by blast
    show "fnmatch (c # cs) ps \<or> (\<exists>k\<le>length cs. fnmatch (drop k cs) ps)"
    proof (cases k)
      case 0
      with k show ?thesis by simp
    next
      case (Suc j)
      with k show ?thesis by auto
    qed
  next
    assume "fnmatch (c # cs) ps \<or> (\<exists>k\<le>length cs. fnmatch (drop k cs) ps)"
    then show "\<exists>k\<le>length (c # cs). fnmatch (drop k (c # cs)) ps"
    proof
      assume "fnmatch (c # cs) ps"
      then have "fnmatch (drop 0 (c # cs)) ps" by simp
      then show ?thesis by blast
    next
      assume "\<exists>k\<le>length cs. fnmatch (drop k cs) ps"
      then obtain k where "k \<le> length cs" "fnmatch (drop k cs) ps" by blast
      then have "Suc k \<le> length (c # cs)" "fnmatch (drop (Suc k) (c # cs)) ps" by simp_all
      then show ?thesis by blast
    qed
  qed
  with Cons show ?case by simp
qed

lemma fnmatch_suffix:
  "fnmatch s ''.?tf'' \<longleftrightarrow> (\<exists>c. s = [CHR ''.'', c, CHR ''t'', CHR ''f''])"
proof (cases s)
  case Nil
  then show ?thesis by simp
next
  case (Cons a s1)
  show ?thesis
  proof (cases s1)
    case Nil
    with Cons show ?thesis by simp
  next
    case (Cons b s2)
    note s1 = this
    show ?thesis
    proof (cases s2)
      case Nil
      with \<open>s = a # s1\<close> s1 show ?thesis by simp
    next
      case (Cons c s3)
      note s2 = this
      show ?thesis
      proof (cases s3)
        case Nil
        with \<open>s = a # s1\<close> s1 s2 show ?thesis by simp
      next
        case (Cons d s4)
        with \<open>s = a # s1\<close> s1 s2 show ?thesis by (cases s4) auto
      qed
    qed
  qed
qed

lemma fnmatch_tf:
  "fnmatch n ''*.?tf'' \<longleftrightarrow> (\<exists>stem c. n = stem @ [CHR ''.'', c, CHR ''t'', CHR ''f''])"
proof
  assume "fnmatch n ''*.?tf''"
  then obtain k where "fnmatch (drop k n) ''.?tf''"
    by (auto simp: fnmatch_star)
  then obtain c where "drop k n = [CHR ''.'', c, CHR ''t'', CHR ''f'']"
    by (auto simp: fnmatch_suffix)
  then have "n = take k n @ [CHR ''.'', c, CHR ''t'', CHR ''f'']"
    by (metis append_take_drop_id)
  then show "\<exists>stem c. n = stem @ [CHR ''.'', c, CHR ''t'', CHR ''f'']" by blast
next
  assume "\<exists>stem c. n = stem @ [CHR ''.'', c, CHR ''t'', CHR ''f'']"
  then obtain stem c where n: "n = stem @ [CHR ''.'', c, CHR ''t'', CHR ''f'']" by blast
  have "fnmatch (drop (length stem) n) ''.?tf''"
    unfolding n by (simp add: fnmatch_suffix)
  moreover have "length stem \<le> length n" unfolding n by simp
  ultimately show "fnmatch n ''*.?tf''"
    unfolding fnmatch_star by blast
qed

lemma glob_noto_filter:
  "glob_noto names =
     map (\<lambda>n. ''resources/fonts/noto/'' @ n)
       (filter (\<lambda>n. \<not> startswith n ''.'' \<and>
                     (\<exists>stem c. n = stem @ [CHR ''.'', c, CHR ''t'', CHR ''f''])) names)"
proof -
  have "ishidden n = startswith n ''.''" for n
    by (cases n) (simp_all add: ishidden_def)
  then show ?thesis
    by (simp add: glob_noto_def noto_dir_def fnmatch_tf)
qed

lemma tf_suffix_iff:
  "(\<exists>s c. stem @ ''.tf'' = s @ [CHR ''.'', c, CHR ''t'', CHR ''f''])
     \<longleftrightarrow> stem \<noteq> [] \<and> last stem = CHR ''.''"
proof
  assume "\<exists>s c. stem @ ''.tf'' = s @ [CHR ''.'', c, CHR ''t'', CHR ''f'']"
  then obtain s c where "stem @ ''.tf'' = s @ [CHR ''.'', c, CHR ''t'', CHR ''f'']" by blast
  then have "stem @ [CHR ''.'', CHR ''t'', CHR ''f''] = (s @ [CHR ''.'']) @ [c, CHR ''t'', CHR ''f'']"
    by simp
  moreover have "(stem @ [CHR ''.'', CHR ''t'', CHR ''f''] = (s @ [CHR ''.'']) @ [c, CHR ''t'', CHR ''f''])
      = (stem = s @ [CHR ''.''] \<and> [CHR ''.'', CHR ''t'', CHR ''f''] = [c, CHR ''t'', CHR ''f''])"
    by (rule append_eq_append_conv) simp
  ultimately have "stem = s @ [CHR ''.'']" by blast
  then show "stem \<noteq> [] \<and> last stem = CHR ''.''" by simp
next
  assume "stem \<noteq> [] \<and> last stem = CHR ''.''"
  then have "stem = butlast stem @ [CHR ''.'']"
    by (metis append_butlast_last_id)
  then have "stem @ ''.tf'' = butlast stem @ [CHR ''.'', CHR ''.'', CHR ''t'', CHR ''f'']"
    by (metis append.assoc append_Cons append_Nil)
  then show "\<exists>s c. stem @ ''.tf'' = s @ [CHR ''.'', c, CHR ''t'', CHR ''f'']" by blast
qed

text \<open>
  Claim C6, as amended. The glob selects exactly the entries of the font directory whose
  name does not start with a dot and ends in a dot, one arbitrary character and
  \<^verbatim>\<open>tf\<close> (such as \<^verbatim>\<open>.otf\<close> and \<^verbatim>\<open>.ttf\<close>), in the order of the directory listing. A
  name that ends in \<^verbatim>\<open>.tf\<close> is selected only when the character before that ending is
  itself a dot (and the name does not start with one), the question mark of the pattern
  then standing for the second dot.
\<close>

theorem glob_noto_selects:
  "glob_noto names =
     map (\<lambda>n. ''resources/fonts/noto/'' @ n)
       (filter (\<lambda>n. \<not> startswith n ''.'' \<and>
                     (\<exists>stem c. n = stem @ [CHR ''.'', c, CHR ''t'', CHR ''f''])) names) \<and>
   glob_noto [stem @ ''.tf''] =
     (if stem \<noteq> [] \<and> hd stem \<noteq> CHR ''.'' \<and> last stem = CHR ''.''
      then [''resources/fonts/noto/'' @ stem @ ''.tf''] else [])"
proof
  show "glob_noto names =
     map (\<lambda>n. ''resources/fonts/noto/'' @ n)
       (filter (\<lambda>n. \<not> startswith n ''.'' \<and>
                     (\<exists>stem c. n = stem @ [CHR ''.'', c, CHR ''t'', CHR ''f''])) names)"
    by (rule glob_noto_filter)
  have h: "startswith (stem @ ''.tf'') ''.'' \<longleftrightarrow> (stem = [] \<or> hd stem = CHR ''.'')"
    by (cases stem) simp_all
  show "glob_noto [stem @ ''.tf''] =
     (if stem \<noteq> [] \<and> hd stem \<noteq> CHR ''.'' \<and> last stem = CHR ''.''
      then [''resources/fonts/noto/'' @ stem @ ''.tf''] else [])"
    unfolding glob_noto_filter by (simp only: list.map filter.simps h tf_suffix_iff) auto
qed

text \<open>
  Claim C6 as stated fails: the single \<^verbatim>\<open>?\<close> of the pattern stands for exactly one
  character, so the file \<^verbatim>\<open>NotoSansX-Regular.tf\<close> is not enumerated, while its
  \<^verbatim>\<open>.otf\<close> sibling is.
\<close>

theorem glob_noto_two_letter_counterexample:
  "glob_noto [''NotoSansX-Regular.tf'', ''NotoSansX-Regular.otf''] =
     [''resources/fonts/noto/NotoSansX-Regular.otf'']"
  by (simp add: glob_noto_def noto_dir_def ishidden_def)

text \<open>A name with two dots before \<^verbatim>\<open>tf\<close> is enumerated.\<close>

lemma glob_noto_double_dot_example:
  "glob_noto [''h..tf'', ''h.tf''] = [''resources/fonts/noto/h..tf'']"
  by (simp add: glob_noto_def noto_dir_def ishidden_def)

section \<open>The font index and one iteration of the loop\<close>

lemma build_lower_snoc:
  "build_lower (fonts @ [f]) = AList.update (lower_str f) (basename f) (build_lower fonts)"
  by (simp add: build_lower_def)

lemma build_lower_Nil: "build_lower [] = []"
  by (simp add: build_lower_def)

lemma keys_build_lower: "fst ` set (build_lower fonts) = lower_str ` set fonts"
  by (induction fonts rule: rev_induct) (auto simp: build_lower_snoc build_lower_Nil dom_update)

lemma distinct_build_lower: "distinct (map fst (build_lower fonts))"
  by (induction fonts rule: rev_induct) (simp_all add: build_lower_snoc build_lower_Nil distinct_update)

lemma map_of_build_lower:
  "map_of (build_lower fonts) k =
     map_option basename (find (\<lambda>f. lower_str f = k) (rev fonts))"
  by (induction fonts rule: rev_induct)
     (simp_all add: build_lower_snoc build_lower_Nil update_conv')

lemma casefont_eq:
  "casefont st us ss n =
     (if n \<in> fst ` set (lower st)
      then (True, st\<lparr>stdout := stdout st @ [return_line us (name_of (lower st) n)],
                      lower := AList.delete n (lower st)\<rparr>)
      else (False, st))"
proof (cases "map_of (lower st) n")
  case None
  then have "n \<notin> fst ` set (lower st)" by (simp add: map_of_eq_None_iff)
  with None show ?thesis by (simp add: casefont_def)
next
  case (Some b)
  then have "n \<in> fst ` set (lower st)" by (metis map_of_eq_None_iff option.distinct(1))
  with Some show ?thesis by (simp add: casefont_def name_of_def return_line_def)
qed

lemma any_casefont_eq:
  "any_casefont st us ss fonts =
     (case find (\<lambda>n. n \<in> fst ` set (lower st)) (map lower_str fonts) of
        None \<Rightarrow> (False, st)
      | Some n \<Rightarrow>
          (True, st\<lparr>stdout := stdout st @ [return_line us (name_of (lower st) n)],
                    lower := AList.delete n (lower st)\<rparr>))"
  by (induction fonts) (simp_all add: casefont_eq)

lemma process_script_eq:
  "process_script st us =
     (case winner (lower st) us of
        None \<Rightarrow>
          st\<lparr>stdout := stdout st @ [break_line us],
             unused := strip_unused (unused st) (font_list (script_fragment us))\<rparr>
      | Some n \<Rightarrow>
          st\<lparr>stdout := stdout st @ [return_line us (name_of (lower st) n)],
             lower := AList.delete n (lower st),
             unused := strip_unused (unused st) (font_list (script_fragment us))\<rparr>)"
  by (simp add: process_script_def any_casefont_eq winner_def candidates_def break_line_def
      Let_def split: option.split)

lemma strip_unused_eq:
  "distinct pool \<Longrightarrow>
   strip_unused pool fonts = filter (\<lambda>k. k \<notin> lower_str ` set fonts) pool"
proof (induction fonts arbitrary: pool)
  case Nil
  show ?case by simp
next
  case (Cons f fonts)
  let ?k = "lower_str f"
  have step: "(if ?k \<in> set pool then remove1 ?k pool else pool) = filter (\<lambda>x. x \<noteq> ?k) pool"
  proof (cases "?k \<in> set pool")
    case True
    have "remove1 ?k pool = filter (\<lambda>x. x \<noteq> ?k) pool"
      using Cons.prems by (induction pool) (auto simp: filter_neq_absent)
    with True show ?thesis by simp
  next
    case False
    then show ?thesis by (simp add: filter_neq_absent)
  qed
  have "distinct (filter (\<lambda>x. x \<noteq> ?k) pool)" using Cons.prems by simp
  from Cons.IH[OF this] step
  have "strip_unused pool (f # fonts)
        = filter (\<lambda>k. k \<notin> lower_str ` set fonts) (filter (\<lambda>x. x \<noteq> ?k) pool)"
    by simp
  also have "\<dots> = filter (\<lambda>k. k \<notin> lower_str ` set (f # fonts)) pool"
    by (induction pool) auto
  finally show ?case .
qed

section \<open>The whole loop\<close>

lemma lower_process_script:
  "lower (process_script st us) =
     (case winner (lower st) us of None \<Rightarrow> lower st | Some n \<Rightarrow> AList.delete n (lower st))"
  by (simp add: process_script_eq split: option.split)

lemma stdout_process_script:
  "stdout (process_script st us) =
     stdout st @ [emitted_line (lower st) (us, winner (lower st) us)]"
  by (simp add: process_script_eq emitted_line_def split: option.split)

lemma unused_process_script:
  "unused (process_script st us) = strip_unused (unused st) (font_list (script_fragment us))"
  by (simp add: process_script_eq split: option.split)

lemma process_scripts_Nil: "process_scripts st [] = st"
  by (simp add: process_scripts_def)

lemma process_scripts_Cons:
  "process_scripts st (us # rest) = process_scripts (process_script st us) rest"
  by (simp add: process_scripts_def)

lemma winner_in_index: "winner d us = Some n \<Longrightarrow> n \<in> fst ` set d"
  unfolding winner_def by (auto simp: find_Some_iff)

lemma winner_in_candidates: "winner d us = Some n \<Longrightarrow> n \<in> set (candidates us)"
  unfolding winner_def by (auto simp: find_Some_iff)

lemma delete_filter: "AList.delete n d = filter (\<lambda>p. fst p \<noteq> n) d"
  by (induction d) auto

lemma resolutions_in_index:
  "(us, Some n) \<in> set (resolutions d scripts) \<Longrightarrow> n \<in> fst ` set d"
proof (induction scripts arbitrary: d)
  case Nil
  then show ?case by simp
next
  case (Cons u rest)
  show ?case
  proof (cases "winner d u")
    case None
    with Cons show ?thesis by auto
  next
    case (Some m)
    with Cons.prems have "(us, Some n) = (u, Some m) \<or> (us, Some n) \<in> set (resolutions (AList.delete m d) rest)"
      by simp
    then show ?thesis
    proof
      assume "(us, Some n) = (u, Some m)"
      with Some show ?thesis by (auto dest: winner_in_index)
    next
      assume "(us, Some n) \<in> set (resolutions (AList.delete m d) rest)"
      from Cons.IH[OF this] show ?thesis
        using dom_delete_subset[of m d] by blast
    qed
  qed
qed

lemma resolutions_in_candidates:
  "(us, Some n) \<in> set (resolutions d scripts) \<Longrightarrow> us \<in> set scripts \<and> n \<in> set (candidates us)"
proof (induction scripts arbitrary: d)
  case Nil
  then show ?case by simp
next
  case (Cons u rest)
  then show ?case
    by (cases "winner d u") (auto dest: winner_in_candidates)
qed

lemma selected_Cons:
  "selected d (us # rest) =
     (case winner d us of None \<Rightarrow> selected d rest
      | Some n \<Rightarrow> n # selected (AList.delete n d) rest)"
  by (simp add: selected_def List.map_filter_simps split: option.split)

lemma selected_Nil: "selected d [] = []"
  by (simp add: selected_def List.map_filter_simps)

lemma set_selected:
  "set (selected d scripts) = {n. \<exists>us. (us, Some n) \<in> set (resolutions d scripts)}"
  by (auto simp: selected_def List.map_filter_def image_iff) force+

lemma lower_process_scripts:
  "lower (process_scripts st scripts) =
     filter (\<lambda>p. fst p \<notin> set (selected (lower st) scripts)) (lower st)"
proof (induction scripts arbitrary: st)
  case Nil
  show ?case by (simp add: process_scripts_Nil selected_Nil)
next
  case (Cons us rest)
  show ?case
  proof (cases "winner (lower st) us")
    case None
    with Cons[of "process_script st us"] show ?thesis
      by (simp add: process_scripts_Cons lower_process_script selected_Cons)
  next
    case (Some n)
    with Cons[of "process_script st us"] show ?thesis
      by (simp add: process_scripts_Cons lower_process_script selected_Cons delete_filter
          conj_commute cong: filter_cong)
  qed
qed

lemma name_of_delete: "k \<noteq> n \<Longrightarrow> name_of (AList.delete n d) k = name_of d k"
  by (simp add: name_of_def)

lemma stdout_process_scripts:
  "stdout (process_scripts st scripts) =
     stdout st @ map (emitted_line (lower st)) (resolutions (lower st) scripts)"
proof (induction scripts arbitrary: st)
  case Nil
  show ?case by (simp add: process_scripts_Nil)
next
  case (Cons us rest)
  show ?case
  proof (cases "winner (lower st) us")
    case None
    with Cons[of "process_script st us"] show ?thesis
      by (simp add: process_scripts_Cons lower_process_script stdout_process_script)
  next
    case (Some n)
    let ?d = "AList.delete n (lower st)"
    have "emitted_line ?d r = emitted_line (lower st) r" if "r \<in> set (resolutions ?d rest)" for r
    proof (cases r)
      case (Pair u w)
      show ?thesis
      proof (cases w)
        case None
        with Pair show ?thesis by (simp add: emitted_line_def)
      next
        case (Some k)
        with Pair that have "k \<in> fst ` set ?d" by (auto dest: resolutions_in_index)
        then have "k \<noteq> n" using delete_notin_dom[of n "lower st"] by auto
        with Pair Some show ?thesis by (simp add: emitted_line_def name_of_delete)
      qed
    qed
    then have "map (emitted_line ?d) (resolutions ?d rest)
             = map (emitted_line (lower st)) (resolutions ?d rest)"
      by simp
    with Some Cons[of "process_script st us"] show ?thesis
      by (simp add: process_scripts_Cons lower_process_script stdout_process_script)
  qed
qed

lemma unused_process_scripts:
  "distinct (unused st) \<Longrightarrow>
   unused (process_scripts st scripts) =
     filter (\<lambda>k. k \<notin> (\<Union>us\<in>set scripts. set (candidates us))) (unused st)"
proof (induction scripts arbitrary: st)
  case Nil
  show ?case by (simp add: process_scripts_Nil)
next
  case (Cons us rest)
  have u: "unused (process_script st us) = filter (\<lambda>k. k \<notin> set (candidates us)) (unused st)"
    using Cons.prems by (simp add: unused_process_script strip_unused_eq candidates_def)
  then have "distinct (unused (process_script st us))" using Cons.prems by simp
  from Cons.IH[OF this] u show ?case
    by (simp add: process_scripts_Cons conj_commute cong: filter_cong)
qed

section \<open>Characters, candidate paths and symbols\<close>

lemma lower_chr_cases:
  "lower_chr c = c \<or> (65 \<le> (of_char c :: nat) \<and> (of_char c :: nat) \<le> 90 \<and>
      (of_char (lower_chr c) :: nat) = of_char c + 32)"
  by (simp add: lower_chr_def Let_def)

lemma upper_chr_cases:
  "upper_chr c = c \<or> (97 \<le> (of_char c :: nat) \<and> (of_char c :: nat) \<le> 122 \<and>
      (of_char (upper_chr c) :: nat) + 32 = of_char c)"
proof (cases "97 \<le> (of_char c :: nat) \<and> (of_char c :: nat) \<le> 122")
  case True
  then have "(of_char c :: nat) - 32 < 256" by linarith
  then have "((of_char c :: nat) - 32) mod 256 = of_char c - 32" by (rule mod_less)
  with True show ?thesis by (auto simp: upper_chr_def Let_def)
next
  case False
  then show ?thesis by (auto simp: upper_chr_def Let_def)
qed

lemma lower_chr_slash [simp]: "lower_chr c = CHR ''/'' \<longleftrightarrow> c = CHR ''/''"
  using lower_chr_cases[of c] by (auto simp: lower_chr_def)

lemma lower_chr_minus [simp]: "lower_chr c = CHR ''-'' \<longleftrightarrow> c = CHR ''-''"
  using lower_chr_cases[of c] by (auto simp: lower_chr_def)

lemma lower_chr_underscore [simp]: "lower_chr c = CHR ''_'' \<longleftrightarrow> c = CHR ''_''"
  using lower_chr_cases[of c] by (auto simp: lower_chr_def)

lemma lower_chr_dot [simp]: "lower_chr c = CHR ''.'' \<longleftrightarrow> c = CHR ''.''"
  using lower_chr_cases[of c] by (auto simp: lower_chr_def)

lemma upper_chr_minus [simp]: "upper_chr c = CHR ''-'' \<longleftrightarrow> c = CHR ''-''"
  using upper_chr_cases[of c] by (auto simp: upper_chr_def)

lemma upper_chr_underscore [simp]: "upper_chr c = CHR ''_'' \<longleftrightarrow> c = CHR ''_''"
  using upper_chr_cases[of c] by (auto simp: upper_chr_def)

lemma lower_str_const:
  "lower_str ''resources/fonts/noto/NotoSerif'' = ''resources/fonts/noto/notoserif''"
  "lower_str ''resources/fonts/noto/NotoSans'' = ''resources/fonts/noto/notosans''"
  "lower_str ''-Regular.otf'' = ''-regular.otf''"
  "lower_str ''-Regular.ttf'' = ''-regular.ttf''"
  "lower_str noto_dir = noto_dir"
  by code_simp+

lemma lower_str_append: "lower_str (xs @ ys) = lower_str xs @ lower_str ys"
  by (simp add: lower_str_def)

lemma candidates_eq:
  "candidates us =
     [''resources/fonts/noto/notoserif'' @ lower_str (script_fragment us) @ ''-regular.otf'',
      ''resources/fonts/noto/notosans'' @ lower_str (script_fragment us) @ ''-regular.otf'',
      ''resources/fonts/noto/notoserif'' @ lower_str (script_fragment us) @ ''-regular.ttf'',
      ''resources/fonts/noto/notosans'' @ lower_str (script_fragment us) @ ''-regular.ttf'']"
  by (simp only: candidates_def font_list_def list.map lower_str_append lower_str_const)

lemma symbol_of_eq:
  "symbol_of b = map (\<lambda>c. if c = CHR ''.'' \<or> c = CHR ''-'' then CHR ''_'' else c) b"
  by (simp add: symbol_of_def replace_chr_def)

section \<open>The initial state and the reports\<close>

lemma lower_init_state: "lower (init_state fonts) = build_lower fonts"
  by (simp add: init_state_def Let_def)

lemma unused_init_state: "unused (init_state fonts) = sort (map fst (build_lower fonts))"
  by (simp add: init_state_def Let_def)

lemma stdout_init_state: "stdout (init_state fonts) = []"
  by (simp add: init_state_def Let_def)

lemma distinct_unused_init: "distinct (unused (init_state fonts))"
  by (simp add: unused_init_state distinct_build_lower)

lemma sorted_unused_init: "sorted (unused (init_state fonts))"
  by (simp add: unused_init_state)

lemma distinct_unused_run: "distinct (unused (process_scripts (init_state fonts) scripts))"
  by (simp add: unused_process_scripts distinct_unused_init)

lemma sorted_unused_run: "sorted (unused (process_scripts (init_state fonts) scripts))"
  by (simp add: unused_process_scripts distinct_unused_init sorted_unused_init sorted_wrt_filter)

lemma selected_subset_candidates:
  "set (selected d scripts) \<subseteq> (\<Union>us\<in>set scripts. set (candidates us))"
  by (auto simp: set_selected dest: resolutions_in_candidates)

lemma selected_subset_index: "set (selected d scripts) \<subseteq> fst ` set d"
  by (auto simp: set_selected dest: resolutions_in_index)

lemma unused_subset_index:
  "set (unused (process_scripts (init_state fonts) scripts))
     \<subseteq> fst ` set (lower (process_scripts (init_state fonts) scripts))"
proof
  fix k
  assume "k \<in> set (unused (process_scripts (init_state fonts) scripts))"
  then have k: "k \<in> fst ` set (build_lower fonts)"
    and nc: "k \<notin> (\<Union>us\<in>set scripts. set (candidates us))"
    by (simp_all add: unused_process_scripts[OF distinct_unused_init] unused_init_state)
  from nc have "k \<notin> set (selected (build_lower fonts) scripts)"
    using selected_subset_candidates[of "build_lower fonts" scripts] by blast
  with k show "k \<in> fst ` set (lower (process_scripts (init_state fonts) scripts))"
    by (auto simp: lower_process_scripts lower_init_state)
qed

lemma report_unmapped_eq:
  "set fs \<subseteq> fst ` set d \<Longrightarrow>
   report_unmapped d out fs = (out @ map (\<lambda>k. ''// unmapped font: '' @ name_of d k) fs, None)"
proof (induction fs arbitrary: out)
  case Nil
  show ?case by simp
next
  case (Cons f fs)
  from Cons.prems have "f \<in> fst ` set d" by simp
  then obtain b where b: "map_of d f = Some b"
    by (metis map_of_eq_None_iff not_Some_eq)
  then have "name_of d f = b" by (simp add: name_of_def)
  with b Cons show ?case by simp
qed

lemma report_unmapped_error:
  "snd (report_unmapped d out fs) = None \<longleftrightarrow> set fs \<subseteq> fst ` set d"
proof (induction fs arbitrary: out)
  case Nil
  show ?case by simp
next
  case (Cons f fs)
  show ?case
  proof (cases "map_of d f")
    case None
    then have "f \<notin> fst ` set d" by (simp add: map_of_eq_None_iff)
    with None show ?thesis by simp
  next
    case (Some b)
    then have "f \<in> fst ` set d" by (metis map_of_eq_None_iff option.distinct(1))
    with Some Cons show ?thesis by simp
  qed
qed

lemma report_unused_eq:
  "set fs \<subseteq> fst ` set d \<Longrightarrow>
   report_unused d pool out fs =
     (out @ map (\<lambda>k. ''// unused font file: '' @ name_of d k) (filter (\<lambda>k. k \<notin> set pool) fs),
      None)"
proof (induction fs arbitrary: out)
  case Nil
  show ?case by simp
next
  case (Cons f fs)
  from Cons.prems have "f \<in> fst ` set d" by simp
  then obtain b where b: "map_of d f = Some b"
    by (metis map_of_eq_None_iff not_Some_eq)
  then have "name_of d f = b" by (simp add: name_of_def)
  with b Cons show ?case by simp
qed

lemma report_eq:
  "set (unused st) \<subseteq> fst ` set (lower st) \<Longrightarrow>
   report st =
     (stdout st
        @ map (\<lambda>k. ''// unmapped font: '' @ name_of (lower st) k) (unused st)
        @ map (\<lambda>k. ''// unused font file: '' @ name_of (lower st) k)
            (filter (\<lambda>k. k \<notin> set (unused st)) (map fst (lower st))),
      None)"
  by (simp add: report_def report_unmapped_eq report_unused_eq)

section \<open>The state after the loop\<close>

lemma map_of_filter_keys:
  "k \<notin> S \<Longrightarrow> map_of (filter (\<lambda>p. fst p \<notin> S) d) k = map_of d k"
  by (induction d) auto

lemma lower_after_loop:
  "lower (after_loop fonts scripts) =
     filter (\<lambda>p. fst p \<notin> set (selected (build_lower fonts) scripts)) (build_lower fonts)"
  by (simp add: after_loop_def lower_process_scripts lower_init_state)

lemma unused_after_loop:
  "unused (after_loop fonts scripts) =
     filter (\<lambda>k. k \<notin> (\<Union>us\<in>set scripts. set (candidates us)))
       (sort (map fst (build_lower fonts)))"
  by (simp add: after_loop_def unused_process_scripts[OF distinct_unused_init] unused_init_state)

lemma stdout_after_loop:
  "stdout (after_loop fonts scripts) =
     map (emitted_line (build_lower fonts)) (resolutions (build_lower fonts) scripts)"
  by (simp add: after_loop_def stdout_process_scripts lower_init_state stdout_init_state)

lemma name_of_after_loop:
  "k \<in> fst ` set (lower (after_loop fonts scripts)) \<Longrightarrow>
   name_of (lower (after_loop fonts scripts)) k = name_of (build_lower fonts) k"
proof -
  assume "k \<in> fst ` set (lower (after_loop fonts scripts))"
  then have "k \<notin> set (selected (build_lower fonts) scripts)"
    by (auto simp: lower_after_loop)
  then show ?thesis
    by (simp add: name_of_def lower_after_loop map_of_filter_keys)
qed

lemma keys_after_loop_subset:
  "fst ` set (lower (after_loop fonts scripts)) \<subseteq> fst ` set (build_lower fonts)"
  by (auto simp: lower_after_loop)

lemma find_Some_mem: "find P xs = Some x \<Longrightarrow> x \<in> set xs \<and> P x"
  by (induction xs) (auto split: if_splits)

lemma name_of_build_lower:
  assumes "k \<in> fst ` set (build_lower fonts)"
  shows "\<exists>f\<in>set fonts. lower_str f = k \<and> name_of (build_lower fonts) k = basename f"
proof -
  from assms obtain b where b: "map_of (build_lower fonts) k = Some b"
    by (metis map_of_eq_None_iff not_Some_eq)
  then obtain f where f: "find (\<lambda>f. lower_str f = k) (rev fonts) = Some f" and "b = basename f"
    by (auto simp: map_of_build_lower)
  from f have "f \<in> set fonts" "lower_str f = k"
    by (auto dest: find_Some_mem)
  with b \<open>b = basename f\<close> show ?thesis
    by (auto simp: name_of_def)
qed

lemma unused_step:
  "unused (process_script (after_loop fonts pre) us) =
     filter (\<lambda>k. k \<notin> set (candidates us)) (unused (after_loop fonts pre))"
proof -
  have "distinct (unused (after_loop fonts pre))"
    by (simp add: after_loop_def distinct_unused_run)
  then show ?thesis
    by (simp add: unused_process_script strip_unused_eq candidates_def)
qed

lemma winner_None_iff: "winner d us = None \<longleftrightarrow> set (candidates us) \<inter> fst ` set d = {}"
  by (auto simp: winner_def find_None_iff)

section \<open>One iteration and the unmapped-font report\<close>

text \<open>
  Claim C8. Let \<open>st\<close> be the state of a run before an identifier \<open>us\<close> is processed. If
  none of the four candidate keys of \<open>us\<close> is in the font index, the iteration prints
  exactly \<^verbatim>\<open>case <us>: break;\<close> and leaves the index as it is. Whether or not a candidate
  matched, the unused pool after the iteration is the pool before it without the four
  candidate keys.
\<close>
theorem no_match_prints_break_and_pool_is_stripped:
  assumes "st = after_loop fonts pre"
  shows "(set (candidates us) \<inter> fst ` set (lower st) = {} \<longrightarrow>
            stdout (process_script st us) = stdout st @ [''case '' @ us @ '': break;''] \<and>
            lower (process_script st us) = lower st) \<and>
         unused (process_script st us) = filter (\<lambda>k. k \<notin> set (candidates us)) (unused st) \<and>
         set (unused (process_script st us)) \<inter> set (candidates us) = {}"
proof (intro conjI impI)
  assume "set (candidates us) \<inter> fst ` set (lower st) = {}"
  then have w: "winner (lower st) us = None" by (simp add: winner_None_iff)
  then show "stdout (process_script st us) = stdout st @ [''case '' @ us @ '': break;'']"
    by (simp add: stdout_process_script emitted_line_def break_line_def)
  from w show "lower (process_script st us) = lower st"
    by (simp add: lower_process_script)
next
  show u: "unused (process_script st us) = filter (\<lambda>k. k \<notin> set (candidates us)) (unused st)"
    unfolding assms by (rule unused_step)
  show "set (unused (process_script st us)) \<inter> set (candidates us) = {}"
    unfolding u by auto
qed

text \<open>
  Claim C3. Let \<open>st\<close> be the state of a run before an identifier \<open>us\<close> is processed. If
  \<open>us\<close> matches the candidate key \<open>n\<close>, then \<open>n\<close> is the lower-cased path of an
  enumerated font \<open>f\<close>, and the iteration prints exactly
  \<^verbatim>\<open>case <us>: RETURN(noto_<t>);\<close> where \<open>t\<close> is the basename of \<open>f\<close> with every dot and
  every hyphen replaced by an underscore.
\<close>
theorem match_prints_return_line:
  assumes "st = after_loop fonts pre"
    and "winner (lower st) us = Some n"
  shows "\<exists>f\<in>set fonts. lower_str f = n \<and>
           stdout (process_script st us) =
             stdout st @ [''case '' @ us @ '': RETURN(noto_''
               @ map (\<lambda>c. if c = CHR ''.'' \<or> c = CHR ''-'' then CHR ''_'' else c) (basename f)
               @ '');'']"
proof -
  from assms(2) have n: "n \<in> fst ` set (lower st)" by (rule winner_in_index)
  then have "name_of (lower st) n = name_of (build_lower fonts) n"
    unfolding assms(1) by (rule name_of_after_loop)
  moreover from n have "n \<in> fst ` set (build_lower fonts)"
    unfolding assms(1) using keys_after_loop_subset by blast
  then obtain f where f: "f \<in> set fonts" "lower_str f = n"
    "name_of (build_lower fonts) n = basename f"
    using name_of_build_lower by blast
  ultimately have "stdout (process_script st us) =
      stdout st @ [''case '' @ us @ '': RETURN(noto_'' @ symbol_of (basename f) @ '');'']"
    using assms(2) by (simp add: stdout_process_script emitted_line_def return_line_def)
  with f show ?thesis unfolding symbol_of_eq by blast
qed

text \<open>
  Claim C10. After the loop every key of the unused pool is a key of the font index, so
  no lookup of the unmapped-font report raises \<^verbatim>\<open>KeyError\<close>. The reason: a key that an
  iteration deletes from the index is the winning candidate of that iteration, and the
  same iteration strips it from the unused pool.
\<close>
theorem unmapped_report_lookups_succeed:
  assumes "st = after_loop fonts scripts"
  shows "set (unused st) \<subseteq> fst ` set (lower st) \<and>
         snd (report_unmapped (lower st) (stdout st) (unused st)) = None \<and>
         (\<forall>k us. k \<in> fst ` set (lower st) \<and> k \<notin> fst ` set (lower (process_script st us)) \<longrightarrow>
            winner (lower st) us = Some k \<and> k \<notin> set (unused (process_script st us)))"
proof (intro conjI allI impI)
  show sub: "set (unused st) \<subseteq> fst ` set (lower st)"
    unfolding assms after_loop_def by (rule unused_subset_index)
  then show "snd (report_unmapped (lower st) (stdout st) (unused st)) = None"
    by (simp add: report_unmapped_error)
next
  fix k us
  assume k: "k \<in> fst ` set (lower st) \<and> k \<notin> fst ` set (lower (process_script st us))"
  show "winner (lower st) us = Some k"
  proof (cases "winner (lower st) us")
    case None
    with k show ?thesis by (simp add: lower_process_script)
  next
    case (Some n)
    with k have "k \<notin> fst ` set (AList.delete n (lower st))" by (simp add: lower_process_script)
    with k have "k = n" by (auto simp: delete_filter)
    with Some show ?thesis by simp
  qed
  then have "k \<in> set (candidates us)" by (rule winner_in_candidates)
  then show "k \<notin> set (unused (process_script st us))"
    unfolding assms unused_step by simp
qed

text \<open>
  Claim C9. The unused pool starts sorted, the loop only filters it, so it is sorted (and
  free of duplicates) when the loop ends, and the unmapped-font report prints one line
  per key of the pool in that order.
\<close>
theorem unmapped_report_is_sorted:
  "sorted (unused (init_state fonts)) \<and>
   unused (after_loop fonts scripts) =
     filter (\<lambda>k. k \<notin> (\<Union>us\<in>set scripts. set (candidates us))) (unused (init_state fonts)) \<and>
   sorted (unused (after_loop fonts scripts)) \<and>
   distinct (unused (after_loop fonts scripts)) \<and>
   report_unmapped (lower (after_loop fonts scripts)) out (unused (after_loop fonts scripts)) =
     (out @ map (\<lambda>k. ''// unmapped font: '' @ name_of (lower (after_loop fonts scripts)) k)
              (unused (after_loop fonts scripts)), None)"
proof (intro conjI)
  show "sorted (unused (init_state fonts))" by (rule sorted_unused_init)
  show "unused (after_loop fonts scripts) =
     filter (\<lambda>k. k \<notin> (\<Union>us\<in>set scripts. set (candidates us))) (unused (init_state fonts))"
    by (simp only: unused_after_loop unused_init_state)
  show "sorted (unused (after_loop fonts scripts))"
    unfolding after_loop_def by (rule sorted_unused_run)
  show "distinct (unused (after_loop fonts scripts))"
    unfolding after_loop_def by (rule distinct_unused_run)
  show "report_unmapped (lower (after_loop fonts scripts)) out (unused (after_loop fonts scripts)) =
     (out @ map (\<lambda>k. ''// unmapped font: '' @ name_of (lower (after_loop fonts scripts)) k)
              (unused (after_loop fonts scripts)), None)"
    by (rule report_unmapped_eq) (simp only: after_loop_def unused_subset_index)
qed
text \<open>The example of the specification: only the sans-serif TrueType font of Arabic is there.\<close>

theorem match_prints_return_line_witness:
  "winner (lower (after_loop example_fonts [])) ''UCDN_SCRIPT_ARABIC''
     = Some ''resources/fonts/noto/notosansarabic-regular.ttf'' \<and>
   (\<exists>f\<in>set example_fonts. lower_str f = ''resources/fonts/noto/notosansarabic-regular.ttf'' \<and>
      stdout (process_script (after_loop example_fonts []) ''UCDN_SCRIPT_ARABIC'') =
        stdout (after_loop example_fonts []) @ [''case '' @ ''UCDN_SCRIPT_ARABIC'' @ '': RETURN(noto_''
           @ map (\<lambda>c. if c = CHR ''.'' \<or> c = CHR ''-'' then CHR ''_'' else c) (basename f)
           @ '');'']) \<and>
   stdout (process_script (after_loop example_fonts []) ''UCDN_SCRIPT_ARABIC'') =
     [''case UCDN_SCRIPT_ARABIC: RETURN(noto_NotoSansArabic_Regular_ttf);'']"
proof -
  have w: "winner (lower (after_loop example_fonts [])) ''UCDN_SCRIPT_ARABIC''
     = Some ''resources/fonts/noto/notosansarabic-regular.ttf''"
    by code_simp
  have out: "stdout (process_script (after_loop example_fonts []) ''UCDN_SCRIPT_ARABIC'') =
     [''case UCDN_SCRIPT_ARABIC: RETURN(noto_NotoSansArabic_Regular_ttf);'']"
    by code_simp
  from match_prints_return_line[where fonts=example_fonts and pre="[]", OF refl w] w out show ?thesis by blast
qed

theorem no_match_prints_break_witness:
  "set (candidates ''UCDN_SCRIPT_TAMIL'') \<inter> fst ` set (lower (after_loop example_fonts [])) = {} \<and>
   stdout (process_script (after_loop example_fonts []) ''UCDN_SCRIPT_TAMIL'')
     = stdout (after_loop example_fonts []) @ [''case '' @ ''UCDN_SCRIPT_TAMIL'' @ '': break;''] \<and>
   lower (process_script (after_loop example_fonts []) ''UCDN_SCRIPT_TAMIL'')
     = lower (after_loop example_fonts []) \<and>
   stdout (process_script (after_loop example_fonts []) ''UCDN_SCRIPT_TAMIL'')
     = [''case UCDN_SCRIPT_TAMIL: break;'']"
proof -
  have h: "set (candidates ''UCDN_SCRIPT_TAMIL'') \<inter> fst ` set (lower (after_loop example_fonts [])) = {}"
    by code_simp
  have out: "stdout (process_script (after_loop example_fonts []) ''UCDN_SCRIPT_TAMIL'')
     = [''case UCDN_SCRIPT_TAMIL: break;'']"
    by code_simp
  from no_match_prints_break_and_pool_is_stripped[where fonts=example_fonts and pre="[]"
      and us="''UCDN_SCRIPT_TAMIL''", OF refl]
    h out show ?thesis by blast
qed

theorem unmapped_report_lookups_succeed_witness:
  "set (unused (after_loop example_fonts [])) \<subseteq> fst ` set (lower (after_loop example_fonts [])) \<and>
   snd (report_unmapped (lower (after_loop example_fonts [])) (stdout (after_loop example_fonts []))
          (unused (after_loop example_fonts []))) = None \<and>
   ''resources/fonts/noto/notosansarabic-regular.ttf'' \<in> fst ` set (lower (after_loop example_fonts [])) \<and>
   ''resources/fonts/noto/notosansarabic-regular.ttf''
      \<notin> fst ` set (lower (process_script (after_loop example_fonts []) ''UCDN_SCRIPT_ARABIC'')) \<and>
   winner (lower (after_loop example_fonts [])) ''UCDN_SCRIPT_ARABIC''
      = Some ''resources/fonts/noto/notosansarabic-regular.ttf'' \<and>
   ''resources/fonts/noto/notosansarabic-regular.ttf''
      \<notin> set (unused (process_script (after_loop example_fonts []) ''UCDN_SCRIPT_ARABIC''))"
proof -
  have a: "''resources/fonts/noto/notosansarabic-regular.ttf'' \<in> fst ` set (lower (after_loop example_fonts []))"
    by code_simp
  have b: "''resources/fonts/noto/notosansarabic-regular.ttf''
      \<notin> fst ` set (lower (process_script (after_loop example_fonts []) ''UCDN_SCRIPT_ARABIC''))"
    by code_simp
  from unmapped_report_lookups_succeed[where fonts=example_fonts and scripts="[]", OF refl] a b
  show ?thesis by blast
qed

section \<open>The whole run\<close>











lemma keys_lower_after_loop:
  "map fst (lower (after_loop fonts scripts)) =
     filter (\<lambda>k. k \<notin> set (selected (build_lower fonts) scripts)) (map fst (build_lower fonts))"
  by (simp add: lower_after_loop filter_map comp_def)

lemma name_of_build_lower_find:
  "name_of (build_lower fonts) k =
     (case find (\<lambda>f. lower_str f = k) (rev fonts) of None \<Rightarrow> [] | Some f \<Rightarrow> basename f)"
  by (simp add: name_of_def map_of_build_lower split: option.split)

text \<open>
  Claim C7, as amended. After the loop the program prints, after the \<^verbatim>\<open>case\<close> lines,
  one \<^verbatim>\<open>// unmapped font:\<close> comment for each key of the font index that is not among
  the candidate keys of any processed identifier, in sorted order, and then one
  \<^verbatim>\<open>// unused font file:\<close> comment for each key of the index that is a candidate key
  of some processed identifier and was not selected by any, in the order of the index.
  The keys of the index are the lower-cased paths of the enumerated fonts, each once, and
  the name printed for a key is the basename of the last enumerated font with that
  lower-cased path: fonts whose paths differ only in the case of letters share one
  comment.
\<close>

theorem reports_list_unmapped_and_unused_fonts:
  "report (after_loop fonts scripts) =
     (stdout (after_loop fonts scripts)
      @ map (\<lambda>k. ''// unmapped font: '' @ name_of (build_lower fonts) k)
          (filter (\<lambda>k. k \<notin> (\<Union>us\<in>set scripts. set (candidates us)))
             (sort (map fst (build_lower fonts))))
      @ map (\<lambda>k. ''// unused font file: '' @ name_of (build_lower fonts) k)
          (filter (\<lambda>k. k \<in> (\<Union>us\<in>set scripts. set (candidates us)) \<and>
                        k \<notin> set (selected (build_lower fonts) scripts))
             (map fst (build_lower fonts))),
      None) \<and>
   set (map fst (build_lower fonts)) = lower_str ` set fonts \<and>
   distinct (map fst (build_lower fonts)) \<and>
   (\<forall>k. name_of (build_lower fonts) k =
      (case find (\<lambda>f. lower_str f = k) (rev fonts) of None \<Rightarrow> [] | Some f \<Rightarrow> basename f)) \<and>
   stdout (after_loop fonts scripts) =
     map (emitted_line (build_lower fonts)) (resolutions (build_lower fonts) scripts)"
proof (intro conjI allI)
  let ?st = "after_loop fonts scripts"
  let ?d = "build_lower fonts"
  let ?C = "\<Union>us\<in>set scripts. set (candidates us)"
  let ?S = "set (selected ?d scripts)"
  have sub: "set (unused ?st) \<subseteq> fst ` set (lower ?st)"
    unfolding after_loop_def by (rule unused_subset_index)
  have n1: "map (\<lambda>k. ''// unmapped font: '' @ name_of (lower ?st) k) (unused ?st)
          = map (\<lambda>k. ''// unmapped font: '' @ name_of ?d k) (unused ?st)"
    using sub by (intro map_cong refl) (simp add: name_of_after_loop subset_iff)
  have keys: "filter (\<lambda>k. k \<notin> set (unused ?st)) (map fst (lower ?st))
          = filter (\<lambda>k. k \<in> ?C \<and> k \<notin> ?S) (map fst ?d)"
    unfolding keys_lower_after_loop unused_after_loop
    by (simp add: conj_commute cong: filter_cong) (rule filter_cong, auto)
  have n2: "map (\<lambda>k. ''// unused font file: '' @ name_of (lower ?st) k)
              (filter (\<lambda>k. k \<in> ?C \<and> k \<notin> ?S) (map fst ?d))
          = map (\<lambda>k. ''// unused font file: '' @ name_of ?d k)
              (filter (\<lambda>k. k \<in> ?C \<and> k \<notin> ?S) (map fst ?d))"
  proof (intro map_cong refl)
    fix k
    assume "k \<in> set (filter (\<lambda>k. k \<in> ?C \<and> k \<notin> ?S) (map fst ?d))"
    then have "k \<in> fst ` set (lower ?st)"
      by (auto simp: lower_after_loop)
    then show "''// unused font file: '' @ name_of (lower ?st) k
             = ''// unused font file: '' @ name_of ?d k"
      by (simp only: name_of_after_loop)
  qed
  show "report ?st =
     (stdout ?st
      @ map (\<lambda>k. ''// unmapped font: '' @ name_of ?d k)
          (filter (\<lambda>k. k \<notin> ?C) (sort (map fst ?d)))
      @ map (\<lambda>k. ''// unused font file: '' @ name_of ?d k)
          (filter (\<lambda>k. k \<in> ?C \<and> k \<notin> ?S) (map fst ?d)),
      None)"
    unfolding report_eq[OF sub] n1 keys n2 by (simp only: unused_after_loop)
  show "set (map fst ?d) = lower_str ` set fonts"
    by (simp add: keys_build_lower)
  show "distinct (map fst ?d)" by (rule distinct_build_lower)
  show "name_of ?d k =
      (case find (\<lambda>f. lower_str f = k) (rev fonts) of None \<Rightarrow> [] | Some f \<Rightarrow> basename f)" for k
    by (rule name_of_build_lower_find)
  show "stdout ?st = map (emitted_line ?d) (resolutions ?d scripts)"
    by (rule stdout_after_loop)
qed

text \<open>
  Claim C7 as stated fails on a directory with two fonts whose names differ only in the
  case of letters: both are enumerated, neither is a candidate of any identifier, and
  only the one enumerated last is listed as unmapped.
\<close>

theorem case_collision_counterexample:
  "glob_noto [''NotoSansXyzzy-Regular.otf'', ''notosansxyzzy-regular.otf'']
     = [''resources/fonts/noto/NotoSansXyzzy-Regular.otf'',
        ''resources/fonts/noto/notosansxyzzy-regular.otf''] \<and>
   main blacklist_header [''NotoSansXyzzy-Regular.otf'', ''notosansxyzzy-regular.otf'']
     = ([''// unmapped font: notosansxyzzy-regular.otf''], None)"
  by code_simp

section \<open>The order of the candidates\<close>

lemma basename_noto_dir: "CHR ''/'' \<notin> set b \<Longrightarrow> basename (noto_dir @ b) = b"
proof -
  assume b: "CHR ''/'' \<notin> set b"
  have "takeWhile (\<lambda>c. c \<noteq> CHR ''/'') (rev b @ rev noto_dir)
      = rev b @ takeWhile (\<lambda>c. c \<noteq> CHR ''/'') (rev noto_dir)"
    using b by (intro takeWhile_append2) auto
  moreover have "takeWhile (\<lambda>c. c \<noteq> CHR ''/'') (rev noto_dir) = []"
    by (simp add: noto_dir_def)
  ultimately show ?thesis by (simp add: basename_def)
qed

lemma slash_lower_str: "CHR ''/'' \<in> set (lower_str b) \<longleftrightarrow> CHR ''/'' \<in> set b"
proof
  assume "CHR ''/'' \<in> set (lower_str b)"
  then obtain x where x: "x \<in> set b" "lower_chr x = CHR ''/''"
    unfolding lower_str_def by (metis (no_types) image_iff list.set_map)
  then have "x = CHR ''/''" by simp
  with x show "CHR ''/'' \<in> set b" by simp
next
  assume "CHR ''/'' \<in> set b"
  then have "lower_chr CHR ''/'' \<in> set (lower_str b)"
    unfolding lower_str_def by simp
  moreover have "lower_chr CHR ''/'' = CHR ''/''" by simp
  ultimately show "CHR ''/'' \<in> set (lower_str b)" by simp
qed

lemma glob_noto_mem:
  "f \<in> set (glob_noto names) \<longleftrightarrow>
     (\<exists>n\<in>set names. f = noto_dir @ n \<and> \<not> ishidden n \<and> fnmatch n ''*.?tf'')"
  by (auto simp: glob_noto_def)

lemma arabic_candidates:
  "candidates ''UCDN_SCRIPT_ARABIC'' =
     [''resources/fonts/noto/notoserifarabic-regular.otf'',
      ''resources/fonts/noto/notosansarabic-regular.otf'',
      ''resources/fonts/noto/notoserifarabic-regular.ttf'',
      ''resources/fonts/noto/notosansarabic-regular.ttf'']"
  by code_simp

lemma serif_arabic_enumerated:
  "''NotoSerifArabic-Regular.otf'' \<in> set names \<Longrightarrow>
   ''resources/fonts/noto/notoserifarabic-regular.otf''
     \<in> fst ` set (build_lower (glob_noto names))"
proof -
  assume "''NotoSerifArabic-Regular.otf'' \<in> set names"
  moreover have "\<not> ishidden ''NotoSerifArabic-Regular.otf''"
    "fnmatch ''NotoSerifArabic-Regular.otf'' ''*.?tf''"
    by code_simp+
  ultimately have "noto_dir @ ''NotoSerifArabic-Regular.otf'' \<in> set (glob_noto names)"
    unfolding glob_noto_mem by blast
  then have "lower_str (noto_dir @ ''NotoSerifArabic-Regular.otf'')
      \<in> fst ` set (build_lower (glob_noto names))"
    unfolding keys_build_lower by (rule imageI)
  moreover have "lower_str (noto_dir @ ''NotoSerifArabic-Regular.otf'')
      = ''resources/fonts/noto/notoserifarabic-regular.otf''"
    by code_simp
  ultimately show ?thesis by simp
qed

lemma serif_arabic_name:
  assumes "''NotoSerifArabic-Regular.otf'' \<in> set names"
  shows "\<exists>b\<in>set names. lower_str b = ''notoserifarabic-regular.otf'' \<and>
           name_of (build_lower (glob_noto names))
             ''resources/fonts/noto/notoserifarabic-regular.otf'' = b"
proof -
  let ?K = "''resources/fonts/noto/notoserifarabic-regular.otf''"
  from serif_arabic_enumerated[OF assms] name_of_build_lower
  obtain f where f: "f \<in> set (glob_noto names)" "lower_str f = ?K"
    "name_of (build_lower (glob_noto names)) ?K = basename f"
    by blast
  from f(1) obtain b where b: "b \<in> set names" "f = noto_dir @ b"
    unfolding glob_noto_mem by blast
  have K: "?K = noto_dir @ ''notoserifarabic-regular.otf''"
    by (simp add: noto_dir_def)
  from f(2) b(2) have l: "lower_str b = ''notoserifarabic-regular.otf''"
    unfolding K by (simp add: lower_str_append lower_str_const)
  have "CHR ''/'' \<notin> set (lower_str b)" unfolding l by simp
  then have "CHR ''/'' \<notin> set b" unfolding slash_lower_str .
  then have "basename f = b" unfolding b(2) by (rule basename_noto_dir)
  with f(3) b(1) l show ?thesis by auto
qed

text \<open>
  Claim C1, as amended. For every identifier \<open>us\<close> and every state \<open>st\<close> of the loop,
  the candidate keys are the lower-cased Serif/otf, Sans/otf, Serif/ttf and Sans/ttf
  paths, probed in this order, and the first of them that the font index holds at that
  moment wins: its \<^verbatim>\<open>RETURN\<close> line is printed and its entry leaves the index; with none
  in the index the \<^verbatim>\<open>break\<close> line is printed. In particular, when the font directory
  holds both \<^verbatim>\<open>NotoSerifArabic-Regular.otf\<close> and \<^verbatim>\<open>NotoSansArabic-Regular.otf\<close>, and no
  identifier processed before \<^verbatim>\<open>UCDN_SCRIPT_ARABIC\<close> has the Serif/otf path among its
  candidates (so that the entry is still in the index), \<^verbatim>\<open>UCDN_SCRIPT_ARABIC\<close> resolves
  to the Serif/otf font.
\<close>

theorem first_present_candidate_wins:
  "candidates us =
     [''resources/fonts/noto/notoserif'' @ lower_str (script_fragment us) @ ''-regular.otf'',
      ''resources/fonts/noto/notosans'' @ lower_str (script_fragment us) @ ''-regular.otf'',
      ''resources/fonts/noto/notoserif'' @ lower_str (script_fragment us) @ ''-regular.ttf'',
      ''resources/fonts/noto/notosans'' @ lower_str (script_fragment us) @ ''-regular.ttf''] \<and>
   (case find (\<lambda>n. n \<in> fst ` set (lower st)) (candidates us) of
      None \<Rightarrow>
        stdout (process_script st us) = stdout st @ [''case '' @ us @ '': break;''] \<and>
        lower (process_script st us) = lower st
    | Some n \<Rightarrow>
        stdout (process_script st us) =
          stdout st @ [''case '' @ us @ '': RETURN(noto_'' @ symbol_of (name_of (lower st) n) @ '');''] \<and>
        lower (process_script st us) = AList.delete n (lower st)) \<and>
   (''NotoSerifArabic-Regular.otf'' \<in> set names \<and>
    ''NotoSansArabic-Regular.otf'' \<in> set names \<and>
    ''resources/fonts/noto/notoserifarabic-regular.otf'' \<notin> (\<Union>u\<in>set pre. set (candidates u)) \<longrightarrow>
      winner (lower (after_loop (glob_noto names) pre)) ''UCDN_SCRIPT_ARABIC''
        = Some ''resources/fonts/noto/notoserifarabic-regular.otf'' \<and>
      (\<exists>b\<in>set names. lower_str b = ''notoserifarabic-regular.otf'' \<and>
         stdout (process_script (after_loop (glob_noto names) pre) ''UCDN_SCRIPT_ARABIC'') =
           stdout (after_loop (glob_noto names) pre)
             @ [''case UCDN_SCRIPT_ARABIC: RETURN(noto_'' @ symbol_of b @ '');'']))"
proof (intro conjI impI)
  show "candidates us =
     [''resources/fonts/noto/notoserif'' @ lower_str (script_fragment us) @ ''-regular.otf'',
      ''resources/fonts/noto/notosans'' @ lower_str (script_fragment us) @ ''-regular.otf'',
      ''resources/fonts/noto/notoserif'' @ lower_str (script_fragment us) @ ''-regular.ttf'',
      ''resources/fonts/noto/notosans'' @ lower_str (script_fragment us) @ ''-regular.ttf'']"
    by (rule candidates_eq)
next
  show "case find (\<lambda>n. n \<in> fst ` set (lower st)) (candidates us) of
      None \<Rightarrow>
        stdout (process_script st us) = stdout st @ [''case '' @ us @ '': break;''] \<and>
        lower (process_script st us) = lower st
    | Some n \<Rightarrow>
        stdout (process_script st us) =
          stdout st @ [''case '' @ us @ '': RETURN(noto_'' @ symbol_of (name_of (lower st) n) @ '');''] \<and>
        lower (process_script st us) = AList.delete n (lower st)"
    by (simp add: stdout_process_script lower_process_script winner_def emitted_line_def
        break_line_def return_line_def split: option.split)
next
  let ?K = "''resources/fonts/noto/notoserifarabic-regular.otf''"
  let ?st = "after_loop (glob_noto names) pre"
  let ?d = "build_lower (glob_noto names)"
  assume h: "''NotoSerifArabic-Regular.otf'' \<in> set names \<and>
    ''NotoSansArabic-Regular.otf'' \<in> set names \<and>
    ?K \<notin> (\<Union>u\<in>set pre. set (candidates u))"
  then have serif: "''NotoSerifArabic-Regular.otf'' \<in> set names"
    and fresh: "?K \<notin> (\<Union>u\<in>set pre. set (candidates u))" by simp_all
  from fresh have "?K \<notin> set (selected ?d pre)"
    using selected_subset_candidates[of ?d pre] by blast
  with serif_arabic_enumerated[OF serif] have K: "?K \<in> fst ` set (lower ?st)"
    by (auto simp: lower_after_loop)
  then show w: "winner (lower ?st) ''UCDN_SCRIPT_ARABIC'' = Some ?K"
    unfolding winner_def arabic_candidates by simp
  from serif_arabic_name[OF serif] obtain b where b: "b \<in> set names"
    "lower_str b = ''notoserifarabic-regular.otf''" "name_of ?d ?K = b"
    by blast
  from K b(3) have "name_of (lower ?st) ?K = b" by (simp only: name_of_after_loop)
  with w have "stdout (process_script ?st ''UCDN_SCRIPT_ARABIC'') =
      stdout ?st @ [''case UCDN_SCRIPT_ARABIC: RETURN(noto_'' @ symbol_of b @ '');'']"
    by (simp add: stdout_process_script emitted_line_def return_line_def)
  with b show "\<exists>b\<in>set names. lower_str b = ''notoserifarabic-regular.otf'' \<and>
         stdout (process_script ?st ''UCDN_SCRIPT_ARABIC'') =
           stdout ?st @ [''case UCDN_SCRIPT_ARABIC: RETURN(noto_'' @ symbol_of b @ '');'']"
    by blast
qed

theorem first_present_candidate_wins_witness:
  "''NotoSerifArabic-Regular.otf'' \<in> set [''NotoSansArabic-Regular.otf'', ''NotoSerifArabic-Regular.otf''] \<and>
   ''NotoSansArabic-Regular.otf'' \<in> set [''NotoSansArabic-Regular.otf'', ''NotoSerifArabic-Regular.otf''] \<and>
   ''resources/fonts/noto/notoserifarabic-regular.otf''
      \<notin> (\<Union>u\<in>set [''UCDN_SCRIPT_TAMIL'']. set (candidates u)) \<and>
   winner (lower (after_loop (glob_noto [''NotoSansArabic-Regular.otf'', ''NotoSerifArabic-Regular.otf''])
                   [''UCDN_SCRIPT_TAMIL''])) ''UCDN_SCRIPT_ARABIC''
      = Some ''resources/fonts/noto/notoserifarabic-regular.otf'' \<and>
   stdout (process_script
            (after_loop (glob_noto [''NotoSansArabic-Regular.otf'', ''NotoSerifArabic-Regular.otf''])
               [''UCDN_SCRIPT_TAMIL'']) ''UCDN_SCRIPT_ARABIC'') =
     [''case UCDN_SCRIPT_TAMIL: break;'',
      ''case UCDN_SCRIPT_ARABIC: RETURN(noto_NotoSerifArabic_Regular_otf);'']"
proof -
  have h: "''NotoSerifArabic-Regular.otf'' \<in> set [''NotoSansArabic-Regular.otf'', ''NotoSerifArabic-Regular.otf''] \<and>
   ''NotoSansArabic-Regular.otf'' \<in> set [''NotoSansArabic-Regular.otf'', ''NotoSerifArabic-Regular.otf''] \<and>
   ''resources/fonts/noto/notoserifarabic-regular.otf''
      \<notin> (\<Union>u\<in>set [''UCDN_SCRIPT_TAMIL'']. set (candidates u))"
    by code_simp
  have out: "stdout (process_script
            (after_loop (glob_noto [''NotoSansArabic-Regular.otf'', ''NotoSerifArabic-Regular.otf''])
               [''UCDN_SCRIPT_TAMIL'']) ''UCDN_SCRIPT_ARABIC'') =
     [''case UCDN_SCRIPT_TAMIL: break;'',
      ''case UCDN_SCRIPT_ARABIC: RETURN(noto_NotoSerifArabic_Regular_otf);'']"
    by code_simp
  from first_present_candidate_wins[where
      names="[''NotoSansArabic-Regular.otf'', ''NotoSerifArabic-Regular.otf'']"
      and pre="[''UCDN_SCRIPT_TAMIL'']"] h out
  show ?thesis by blast
qed

text \<open>
  Claim C1 as stated fails when an earlier identifier has the same candidates: the
  fragments of \<^verbatim>\<open>UCDN_SCRIPT_ARA_BIC\<close> and \<^verbatim>\<open>UCDN_SCRIPT_ARABIC\<close> are both \<^verbatim>\<open>arabic\<close>
  in lower case, the first identifier claims the Serif/otf font, and
  \<^verbatim>\<open>UCDN_SCRIPT_ARABIC\<close> resolves to the Sans/otf font although the directory holds both.
\<close>

theorem earlier_claim_counterexample:
  "main (blacklist_header @ [''#define UCDN_SCRIPT_ARA_BIC 1'', ''#define UCDN_SCRIPT_ARABIC 2''])
        [''NotoSerifArabic-Regular.otf'', ''NotoSansArabic-Regular.otf'']
   = ([''case UCDN_SCRIPT_ARA_BIC: RETURN(noto_NotoSerifArabic_Regular_otf);'',
       ''case UCDN_SCRIPT_ARABIC: RETURN(noto_NotoSansArabic_Regular_otf);''], None)"
  by code_simp

section \<open>Claimed entries and generated symbols\<close>

lemma distinct_selected: "distinct (selected d scripts)"
proof (induction scripts arbitrary: d)
  case Nil
  show ?case by (simp add: selected_Nil)
next
  case (Cons us rest)
  show ?case
  proof (cases "winner d us")
    case None
    with Cons show ?thesis by (simp add: selected_Cons)
  next
    case (Some n)
    have "n \<notin> set (selected (AList.delete n d) rest)"
      using selected_subset_index[of "AList.delete n d" rest] delete_notin_dom[of n d] by blast
    with Some Cons show ?thesis by (simp add: selected_Cons)
  qed
qed

lemma split_on_nonempty: "split_on d s \<noteq> []"
  by (induction s) (auto split: list.split)

lemma set_split_on:
  "w \<in> set (split_on d s) \<Longrightarrow> x \<in> set w \<Longrightarrow> x \<in> set s \<and> x \<noteq> d"
proof (induction s arbitrary: w)
  case Nil
  then show ?case by simp
next
  case (Cons c cs)
  show ?case
  proof (cases "c = d")
    case True
    with Cons.prems have "w = [] \<or> w \<in> set (split_on d cs)" by simp
    with Cons.prems(2) Cons.IH show ?thesis by auto
  next
    case False
    obtain v vs where s: "split_on d cs = v # vs"
      using split_on_nonempty[of d cs] by (cases "split_on d cs") auto
    with False Cons.prems(1) have "w = c # v \<or> w \<in> set vs" by simp
    then show ?thesis
    proof
      assume "w = c # v"
      with Cons.prems(2) have "x = c \<or> x \<in> set v" by simp
      then show ?thesis
      proof
        assume "x = c" with False show ?thesis by simp
      next
        assume "x \<in> set v"
        with Cons.IH[of v] s show ?thesis by simp
      qed
    next
      assume "w \<in> set vs"
      with Cons.IH[of w] s Cons.prems(2) show ?thesis by simp
    qed
  qed
qed

lemma set_capitalize:
  "x \<in> set (capitalize w) \<Longrightarrow> \<exists>y\<in>set w. x = upper_chr y \<or> x = lower_chr y"
  by (cases w) (auto simp: capitalize_def)

lemma set_script_fragment:
  assumes "x \<in> set (script_fragment us)"
  shows "\<exists>y\<in>set us. y \<noteq> CHR ''_'' \<and> (x = upper_chr y \<or> x = lower_chr y)"
proof -
  from assms obtain w where w: "w \<in> set (drop 2 (split_on CHR ''_'' us))" "x \<in> set (capitalize w)"
    by (auto simp: script_fragment_def)
  from w(1) have w': "w \<in> set (split_on CHR ''_'' us)" by (rule in_set_dropD)
  from w(2) obtain y where y: "y \<in> set w" "x = upper_chr y \<or> x = lower_chr y"
    using set_capitalize by blast
  from set_split_on[OF w' y(1)] y(2) show ?thesis by blast
qed

lemma fragment_no_underscore: "CHR ''_'' \<notin> set (lower_str (script_fragment us))"
proof
  assume "CHR ''_'' \<in> set (lower_str (script_fragment us))"
  then have "CHR ''_'' \<in> lower_chr ` set (script_fragment us)"
    by (simp add: lower_str_def)
  then obtain x where x: "x \<in> set (script_fragment us)" and "CHR ''_'' = lower_chr x"
    by (rule imageE)
  then have "lower_chr x = CHR ''_''" by simp
  then have xe: "x = CHR ''_''" by (simp only: lower_chr_underscore)
  from set_script_fragment[OF x] obtain y where
    y: "y \<noteq> CHR ''_''" and d: "x = upper_chr y \<or> x = lower_chr y" by blast
  from d xe have "upper_chr y = CHR ''_'' \<or> lower_chr y = CHR ''_''" by metis
  then have "y = CHR ''_''" by auto
  with y show False by simp
qed

lemma fragment_no_minus:
  "CHR ''-'' \<notin> set us \<Longrightarrow> CHR ''-'' \<notin> set (lower_str (script_fragment us))"
proof
  assume us: "CHR ''-'' \<notin> set us"
  assume "CHR ''-'' \<in> set (lower_str (script_fragment us))"
  then have "CHR ''-'' \<in> lower_chr ` set (script_fragment us)"
    by (simp add: lower_str_def)
  then obtain x where x: "x \<in> set (script_fragment us)" and "CHR ''-'' = lower_chr x"
    by (rule imageE)
  then have "lower_chr x = CHR ''-''" by simp
  then have xe: "x = CHR ''-''" by (simp only: lower_chr_minus)
  from set_script_fragment[OF x] obtain y where
    y: "y \<in> set us" and d: "x = upper_chr y \<or> x = lower_chr y" by blast
  from d xe have "upper_chr y = CHR ''-'' \<or> lower_chr y = CHR ''-''" by metis
  then have "y = CHR ''-''" by auto
  with y us show False by simp
qed

lemma symbol_of_append: "symbol_of (xs @ ys) = symbol_of xs @ symbol_of ys"
  by (simp add: symbol_of_eq)

lemma length_symbol_of: "length (symbol_of xs) = length xs"
  by (simp add: symbol_of_eq)

lemma lower_str_symbol_of: "lower_str (symbol_of b) = symbol_of (lower_str b)"
proof -
  have "lower_chr (if c = CHR ''.'' \<or> c = CHR ''-'' then CHR ''_'' else c)
      = (if lower_chr c = CHR ''.'' \<or> lower_chr c = CHR ''-'' then CHR ''_'' else lower_chr c)" for c
  proof -
    have "lower_chr CHR ''_'' = CHR ''_''" by simp
    then show ?thesis by simp
  qed
  then show ?thesis by (simp add: symbol_of_eq lower_str_def)
qed

lemma symbol_of_inj:
  "symbol_of xs = symbol_of ys \<Longrightarrow>
   CHR ''-'' \<notin> set xs \<Longrightarrow> CHR ''_'' \<notin> set xs \<Longrightarrow>
   CHR ''-'' \<notin> set ys \<Longrightarrow> CHR ''_'' \<notin> set ys \<Longrightarrow> xs = ys"
proof (induction xs arbitrary: ys)
  case Nil
  then show ?case by (simp add: symbol_of_eq)
next
  case (Cons x xs)
  then obtain y ys' where ys: "ys = y # ys'" by (cases ys) (auto simp: symbol_of_eq)
  from Cons.prems ys have hd: "(if x = CHR ''.'' \<or> x = CHR ''-'' then CHR ''_'' else x)
        = (if y = CHR ''.'' \<or> y = CHR ''-'' then CHR ''_'' else y)"
    and tl: "symbol_of xs = symbol_of ys'"
    by (simp_all add: symbol_of_eq)
  from Cons.prems ys have nx: "x \<noteq> CHR ''-''" "x \<noteq> CHR ''_''" and ny: "y \<noteq> CHR ''-''" "y \<noteq> CHR ''_''"
    by auto
  from hd nx ny have "x = y" by (auto split: if_splits)
  moreover from Cons.IH[OF tl] Cons.prems ys have "xs = ys'" by simp
  ultimately show ?case using ys by simp
qed

lemma candidate_form:
  assumes "n \<in> set (candidates us)"
  shows "\<exists>style ext. (style = ''notoserif'' \<or> style = ''notosans'') \<and>
           (ext = ''otf'' \<or> ext = ''ttf'') \<and>
           n = noto_dir @ style @ lower_str (script_fragment us) @ ''-regular.'' @ ext"
proof -
  let ?s = "lower_str (script_fragment us)"
  from assms have "n = noto_dir @ ''notoserif'' @ ?s @ ''-regular.'' @ ''otf''
      \<or> n = noto_dir @ ''notosans'' @ ?s @ ''-regular.'' @ ''otf''
      \<or> n = noto_dir @ ''notoserif'' @ ?s @ ''-regular.'' @ ''ttf''
      \<or> n = noto_dir @ ''notosans'' @ ?s @ ''-regular.'' @ ''ttf''"
    by (simp add: candidates_eq noto_dir_def)
  then show ?thesis by blast
qed

lemma stem_eq:
  assumes "symbol_of (style @ s @ ''-regular.'' @ ext) = symbol_of (style' @ s' @ ''-regular.'' @ ext')"
    and "style = ''notoserif'' \<or> style = ''notosans''"
    and "style' = ''notoserif'' \<or> style' = ''notosans''"
    and "ext = ''otf'' \<or> ext = ''ttf''"
    and "ext' = ''otf'' \<or> ext' = ''ttf''"
    and "CHR ''-'' \<notin> set s" "CHR ''_'' \<notin> set s"
    and "CHR ''-'' \<notin> set s'" "CHR ''_'' \<notin> set s'"
  shows "style @ s @ ''-regular.'' @ ext = style' @ s' @ ''-regular.'' @ ext'"
proof -
  have l: "length (symbol_of (''-regular.'' @ ext)) = length (symbol_of (''-regular.'' @ ext'))"
    using assms(4,5) by (auto simp: length_symbol_of)
  from assms(1) have "symbol_of (style @ s) @ symbol_of (''-regular.'' @ ext)
      = symbol_of (style' @ s') @ symbol_of (''-regular.'' @ ext')"
    by (simp add: symbol_of_append)
  with l have a: "symbol_of (style @ s) = symbol_of (style' @ s')"
    and b: "symbol_of (''-regular.'' @ ext) = symbol_of (''-regular.'' @ ext')"
    by (simp_all add: append_eq_append_conv)
  from b assms(4,5) have e: "ext = ext'"
    by (auto simp: symbol_of_eq)
  have "CHR ''-'' \<notin> set (style @ s)" "CHR ''_'' \<notin> set (style @ s)"
    "CHR ''-'' \<notin> set (style' @ s')" "CHR ''_'' \<notin> set (style' @ s')"
    using assms(2,3,6-9) by auto
  with a have "style @ s = style' @ s'" by (rule symbol_of_inj)
  with e show ?thesis by simp
qed

lemma index_entry_form:
  assumes names: "\<forall>n\<in>set names. CHR ''/'' \<notin> set n"
    and k: "k \<in> fst ` set (build_lower (glob_noto names))"
  shows "k = noto_dir @ lower_str (name_of (build_lower (glob_noto names)) k)"
proof -
  from name_of_build_lower[OF k] obtain f where f: "f \<in> set (glob_noto names)"
    "lower_str f = k" "name_of (build_lower (glob_noto names)) k = basename f"
    by blast
  from f(1) obtain n where n: "n \<in> set names" "f = noto_dir @ n"
    unfolding glob_noto_mem by blast
  from names n(1) have "CHR ''/'' \<notin> set n" by blast
  then have "basename f = n" unfolding n(2) by (rule basename_noto_dir)
  with f n(2) show ?thesis by (simp add: lower_str_append lower_str_const)
qed

lemma symbol_determines_key:
  assumes names: "\<forall>n\<in>set names. CHR ''/'' \<notin> set n"
    and ids: "\<forall>us\<in>set scripts. CHR ''-'' \<notin> set us"
    and k1: "k1 \<in> set (selected (build_lower (glob_noto names)) scripts)"
    and k2: "k2 \<in> set (selected (build_lower (glob_noto names)) scripts)"
    and eq: "symbol_of (name_of (build_lower (glob_noto names)) k1)
           = symbol_of (name_of (build_lower (glob_noto names)) k2)"
  shows "k1 = k2"
proof -
  let ?d = "build_lower (glob_noto names)"
  have form: "\<exists>style ext s. (style = ''notoserif'' \<or> style = ''notosans'') \<and>
           (ext = ''otf'' \<or> ext = ''ttf'') \<and> CHR ''-'' \<notin> set s \<and> CHR ''_'' \<notin> set s \<and>
           lower_str (name_of ?d k) = style @ s @ ''-regular.'' @ ext"
    if "k \<in> set (selected ?d scripts)" for k
  proof -
    from that obtain us where us: "us \<in> set scripts" "k \<in> set (candidates us)"
      using selected_subset_candidates[of ?d scripts] by blast
    from that have "k \<in> fst ` set ?d"
      using selected_subset_index[of ?d scripts] by blast
    from index_entry_form[OF names this]
    have e: "k = noto_dir @ lower_str (name_of ?d k)" .
    from candidate_form[OF us(2)] obtain style ext where
      se: "style = ''notoserif'' \<or> style = ''notosans''" "ext = ''otf'' \<or> ext = ''ttf''"
      and c: "k = noto_dir @ style @ lower_str (script_fragment us) @ ''-regular.'' @ ext"
      by blast
    from e c have "noto_dir @ lower_str (name_of ?d k)
        = noto_dir @ style @ lower_str (script_fragment us) @ ''-regular.'' @ ext"
      by simp
    then have "lower_str (name_of ?d k)
        = style @ lower_str (script_fragment us) @ ''-regular.'' @ ext"
      by (simp only: same_append_eq)
    moreover from ids us(1) have "CHR ''-'' \<notin> set (lower_str (script_fragment us))"
      by (intro fragment_no_minus) blast
    moreover have "CHR ''_'' \<notin> set (lower_str (script_fragment us))"
      by (rule fragment_no_underscore)
    ultimately show ?thesis using se by blast
  qed
  from form[OF k1] obtain style1 ext1 s1 where
    f1: "style1 = ''notoserif'' \<or> style1 = ''notosans''" "ext1 = ''otf'' \<or> ext1 = ''ttf''"
      "CHR ''-'' \<notin> set s1" "CHR ''_'' \<notin> set s1"
      "lower_str (name_of ?d k1) = style1 @ s1 @ ''-regular.'' @ ext1"
    by blast
  from form[OF k2] obtain style2 ext2 s2 where
    f2: "style2 = ''notoserif'' \<or> style2 = ''notosans''" "ext2 = ''otf'' \<or> ext2 = ''ttf''"
      "CHR ''-'' \<notin> set s2" "CHR ''_'' \<notin> set s2"
      "lower_str (name_of ?d k2) = style2 @ s2 @ ''-regular.'' @ ext2"
    by blast
  from eq have "lower_str (symbol_of (name_of ?d k1)) = lower_str (symbol_of (name_of ?d k2))"
    by simp
  then have "symbol_of (style1 @ s1 @ ''-regular.'' @ ext1)
           = symbol_of (style2 @ s2 @ ''-regular.'' @ ext2)"
    by (simp only: lower_str_symbol_of f1(5) f2(5))
  from stem_eq[OF this f1(1) f2(1) f1(2) f2(2) f1(3,4) f2(3,4)]
  have "lower_str (name_of ?d k1) = lower_str (name_of ?d k2)"
    by (simp only: f1(5) f2(5))
  moreover from k1 have "k1 = noto_dir @ lower_str (name_of ?d k1)"
    using selected_subset_index[of ?d scripts] index_entry_form[OF names] by blast
  moreover from k2 have "k2 = noto_dir @ lower_str (name_of ?d k2)"
    using selected_subset_index[of ?d scripts] index_entry_form[OF names] by blast
  ultimately show ?thesis by simp
qed

text \<open>
  Claim C2, as amended. In one run no entry of the font index is claimed twice: the keys
  selected by the loop are pairwise different (each is deleted from the index when it is
  claimed). The \<^verbatim>\<open>RETURN\<close> lines of the output are the lines of the identifiers with a
  selected key, and the symbol of such a line is \<^verbatim>\<open>noto_\<close> followed by the transformed
  basename of the key's font. If no processed identifier contains a hyphen (and the
  entries of the font directory contain no slash, as file names do), these symbols are
  pairwise different as well.
\<close>
theorem claimed_entries_and_symbols_distinct:
  "distinct (selected (build_lower (glob_noto names)) scripts) \<and>
   stdout (after_loop (glob_noto names) scripts) =
     map (emitted_line (build_lower (glob_noto names)))
       (resolutions (build_lower (glob_noto names)) scripts) \<and>
   ((\<forall>us\<in>set scripts. CHR ''-'' \<notin> set us) \<and> (\<forall>n\<in>set names. CHR ''/'' \<notin> set n) \<longrightarrow>
      distinct (map (\<lambda>n. ''noto_'' @ symbol_of (name_of (build_lower (glob_noto names)) n))
                  (selected (build_lower (glob_noto names)) scripts)))"
proof (intro conjI impI)
  let ?d = "build_lower (glob_noto names)"
  show d: "distinct (selected ?d scripts)" by (rule distinct_selected)
  show "stdout (after_loop (glob_noto names) scripts) = map (emitted_line ?d) (resolutions ?d scripts)"
    by (rule stdout_after_loop)
  assume h: "(\<forall>us\<in>set scripts. CHR ''-'' \<notin> set us) \<and> (\<forall>n\<in>set names. CHR ''/'' \<notin> set n)"
  have "inj_on (\<lambda>n. ''noto_'' @ symbol_of (name_of ?d n)) (set (selected ?d scripts))"
  proof (rule inj_onI)
    fix k1 k2
    assume "k1 \<in> set (selected ?d scripts)" "k2 \<in> set (selected ?d scripts)"
      and "''noto_'' @ symbol_of (name_of ?d k1) = ''noto_'' @ symbol_of (name_of ?d k2)"
    with h show "k1 = k2"
      by (intro symbol_determines_key[of names scripts k1 k2]) simp_all
  qed
  with d show "distinct (map (\<lambda>n. ''noto_'' @ symbol_of (name_of ?d n)) (selected ?d scripts))"
    by (simp add: distinct_map)
qed

theorem claimed_entries_and_symbols_distinct_witness:
  "list_all (\<lambda>us. CHR ''-'' \<notin> set us) [''UCDN_SCRIPT_ARABIC'', ''UCDN_SCRIPT_OLD_ITALIC''] \<and>
   list_all (\<lambda>n. CHR ''/'' \<notin> set n) [''NotoSansArabic-Regular.ttf'', ''NotoSansOldItalic-Regular.otf''] \<and>
   distinct (map (\<lambda>n. ''noto_'' @ symbol_of
        (name_of (build_lower (glob_noto [''NotoSansArabic-Regular.ttf'', ''NotoSansOldItalic-Regular.otf''])) n))
      (selected (build_lower (glob_noto [''NotoSansArabic-Regular.ttf'', ''NotoSansOldItalic-Regular.otf'']))
         [''UCDN_SCRIPT_ARABIC'', ''UCDN_SCRIPT_OLD_ITALIC''])) \<and>
   map (\<lambda>n. ''noto_'' @ symbol_of
        (name_of (build_lower (glob_noto [''NotoSansArabic-Regular.ttf'', ''NotoSansOldItalic-Regular.otf''])) n))
      (selected (build_lower (glob_noto [''NotoSansArabic-Regular.ttf'', ''NotoSansOldItalic-Regular.otf'']))
         [''UCDN_SCRIPT_ARABIC'', ''UCDN_SCRIPT_OLD_ITALIC''])
     = [''noto_NotoSansArabic_Regular_ttf'', ''noto_NotoSansOldItalic_Regular_otf'']"
proof -
  have a: "list_all (\<lambda>us. CHR ''-'' \<notin> set us) [''UCDN_SCRIPT_ARABIC'', ''UCDN_SCRIPT_OLD_ITALIC'']"
    by code_simp
  have b: "list_all (\<lambda>n. CHR ''/'' \<notin> set n) [''NotoSansArabic-Regular.ttf'', ''NotoSansOldItalic-Regular.otf'']"
    by code_simp
  have c: "map (\<lambda>n. ''noto_'' @ symbol_of
        (name_of (build_lower (glob_noto [''NotoSansArabic-Regular.ttf'', ''NotoSansOldItalic-Regular.otf''])) n))
      (selected (build_lower (glob_noto [''NotoSansArabic-Regular.ttf'', ''NotoSansOldItalic-Regular.otf'']))
         [''UCDN_SCRIPT_ARABIC'', ''UCDN_SCRIPT_OLD_ITALIC''])
     = [''noto_NotoSansArabic_Regular_ttf'', ''noto_NotoSansOldItalic_Regular_otf'']"
    by code_simp
  from a have a': "\<forall>us\<in>set [''UCDN_SCRIPT_ARABIC'', ''UCDN_SCRIPT_OLD_ITALIC'']. CHR ''-'' \<notin> set us"
    by (simp only: list_all_iff)
  from b have b': "\<forall>n\<in>set [''NotoSansArabic-Regular.ttf'', ''NotoSansOldItalic-Regular.otf'']. CHR ''/'' \<notin> set n"
    by (simp only: list_all_iff)
  from claimed_entries_and_symbols_distinct[where
      names="[''NotoSansArabic-Regular.ttf'', ''NotoSansOldItalic-Regular.otf'']"
      and scripts="[''UCDN_SCRIPT_ARABIC'', ''UCDN_SCRIPT_OLD_ITALIC'']"] a' b'
  have "distinct (map (\<lambda>n. ''noto_'' @ symbol_of
        (name_of (build_lower (glob_noto [''NotoSansArabic-Regular.ttf'', ''NotoSansOldItalic-Regular.otf''])) n))
      (selected (build_lower (glob_noto [''NotoSansArabic-Regular.ttf'', ''NotoSansOldItalic-Regular.otf'']))
         [''UCDN_SCRIPT_ARABIC'', ''UCDN_SCRIPT_OLD_ITALIC'']))"
    by blast
  with a b c show ?thesis by blast
qed

text \<open>
  Claim C2 as stated fails for identifiers that differ only in a dot against a hyphen:
  their fonts are different entries of the index, and the dot and the hyphen both become
  an underscore, so the two \<^verbatim>\<open>RETURN\<close> lines of the run name the same symbol.
\<close>

theorem same_symbol_twice_counterexample:
  "main (blacklist_header @ [''#define UCDN_SCRIPT_A.B 1'', ''#define UCDN_SCRIPT_A-B 2''])
        [''NotoSerifA.B-Regular.otf'', ''NotoSerifA-B-Regular.otf'']
   = ([''case UCDN_SCRIPT_A.B: RETURN(noto_NotoSerifA_B_Regular_otf);'',
       ''case UCDN_SCRIPT_A-B: RETURN(noto_NotoSerifA_B_Regular_otf);''], None)"
  by code_simp

end
